theory Spec2Isabelle
  imports Main "HOL-Library.Word"
begin

section \<open>Strings and values\<close>

text \<open>
  A JavaScript string is a sequence of 16-bit code units. \<open>cu\<close> gives the code unit of an
  ASCII character and \<open>js\<close> the string of an ASCII literal.
\<close>

type_synonym jsstring = "16 word list"

definition cu :: "char \<Rightarrow> 16 word" where
  "cu c = of_nat (of_char c)"

definition js :: "string \<Rightarrow> jsstring" where
  "js s = map cu s"

text \<open>
  A finite Number value is kept as \<open>Number::toString\<close> takes it: the sign, and integers \<open>s\<close>
  and \<open>e\<close> for the magnitude \<open>s \<times> 10\<^sup>e\<close> (zero, of either sign, has \<open>s = 0\<close>). The other
  Number values \<open>JSON.parse\<close> can return are the two infinities. The numbers of a state are
  those the platform read from a literal (\<open>Number_read\<close> below); which decimal is nearest to
  a literal is left to it.
\<close>

datatype jsnum =
    Finite bool nat int
  | Infinite bool

text \<open>
  \<open>state.trips\<close> holds whatever \<open>JSON.parse\<close> returned or what \<open>collectTrip\<close> built,
  so its elements are JavaScript values of the JSON fragment. An object is the list of its
  properties in the order of its keys.
\<close>

datatype json =
    JNull
  | JBool bool
  | JNum jsnum
  | JStr jsstring
  | JArr "json list"
  | JObj "(jsstring \<times> json) list"

subsection \<open>\<open>JSON.stringify\<close>\<close>

abbreviation dquote :: "16 word" where
  "dquote \<equiv> cu (CHR 0x22)"

abbreviation bslash :: "16 word" where
  "bslash \<equiv> cu (CHR 0x5C)"

abbreviation newline :: "16 word" where
  "newline \<equiv> cu (CHR 0x0A)"

definition digit :: "nat \<Rightarrow> 16 word" where
  "digit n = of_nat (48 + n mod 10)"

function dec :: "nat \<Rightarrow> jsstring" where
  "dec n = (if n < 10 then [digit n] else dec (n div 10) @ [digit n])"
  by pat_completeness auto
termination
  by (relation "measure id") auto

declare dec.simps [simp del]

text \<open>The shortest digits of a magnitude: \<open>s\<close> without its trailing zeros.\<close>

function shortest :: "nat \<Rightarrow> int \<Rightarrow> nat \<times> int" where
  "shortest s e = (if s \<noteq> 0 \<and> s mod 10 = 0 then shortest (s div 10) (e + 1) else (s, e))"
  by pat_completeness auto
termination
  by (relation "measure fst") auto

declare shortest.simps [simp del]

definition zeros :: "nat \<Rightarrow> jsstring" where
  "zeros m = replicate m (cu CHR ''0'')"

text \<open>
  \<open>Number::toString\<close> in radix 10. With \<open>k\<close> digits \<open>ds\<close> of \<open>s\<close> and \<open>n = e + k\<close>, the value
  is \<open>s \<times> 10\<^bsup>n - k\<^esup>\<close>: it is written in full when \<open>-5 \<le> n \<le> 21\<close> and with an exponent
  otherwise.
\<close>

definition Number_toString :: "jsnum \<Rightarrow> jsstring" where
  "Number_toString x =
     (case x of
        Infinite neg \<Rightarrow> (if neg then js ''-Infinity'' else js ''Infinity'')
      | Finite neg s0 e0 \<Rightarrow>
          (case shortest s0 e0 of
             (s, e) \<Rightarrow>
               if s = 0 then js ''0''
               else
                 (if neg then [cu CHR ''-''] else [])
                 @ (let ds = dec s; k = int (length ds); n = e + k in
                    if - 5 \<le> n \<and> n \<le> 21 then
                      (if k \<le> n then ds @ zeros (nat (n - k))
                       else if 0 < n then take (nat n) ds @ cu CHR ''.'' # drop (nat n) ds
                       else js ''0.'' @ zeros (nat (- n)) @ ds)
                    else
                      take 1 ds @ (if k = 1 then [] else cu CHR ''.'' # drop 1 ds)
                      @ cu CHR ''e'' # cu (if n < 0 then CHR ''-'' else CHR ''+'')
                      # dec (nat \<bar>n - 1\<bar>))))"

definition hex_digit :: "nat \<Rightarrow> 16 word" where
  "hex_digit n = (if n < 10 then of_nat (48 + n) else of_nat (87 + n))"

definition unicode_escape :: "nat \<Rightarrow> jsstring" where
  "unicode_escape n =
     [bslash, cu CHR ''u'', hex_digit (n div 16 div 16 div 16), hex_digit (n div 16 div 16 mod 16),
      hex_digit (n div 16 mod 16), hex_digit (n mod 16)]"

definition is_lead :: "16 word \<Rightarrow> bool" where
  "is_lead c = (0xD800 \<le> unat c \<and> unat c \<le> 0xDBFF)"

definition is_trail :: "16 word \<Rightarrow> bool" where
  "is_trail c = (0xDC00 \<le> unat c \<and> unat c \<le> 0xDFFF)"

text \<open>One code point of \<open>QuoteJSONString\<close> that is a single code unit.\<close>

definition quote_unit :: "16 word \<Rightarrow> jsstring" where
  "quote_unit c =
     (let n = unat c in
      if n = 8 then [bslash, cu CHR ''b'']
      else if n = 9 then [bslash, cu CHR ''t'']
      else if n = 10 then [bslash, cu CHR ''n'']
      else if n = 12 then [bslash, cu CHR ''f'']
      else if n = 13 then [bslash, cu CHR ''r'']
      else if c = dquote then [bslash, dquote]
      else if c = bslash then [bslash, bslash]
      else if n < 32 \<or> is_lead c \<or> is_trail c then unicode_escape n
      else [c])"

text \<open>
  The code points of a string in turn: a surrogate pair is written as it is, a surrogate
  without its partner is escaped.
\<close>

fun quote_units :: "jsstring \<Rightarrow> jsstring" where
  "quote_units [] = []"
| "quote_units [c] = quote_unit c"
| "quote_units (c # d # r) =
     (if is_lead c \<and> is_trail d then c # d # quote_units r
      else quote_unit c @ quote_units (d # r))"

definition QuoteJSONString :: "jsstring \<Rightarrow> jsstring" where
  "QuoteJSONString s = dquote # quote_units s @ [dquote]"

fun join :: "jsstring \<Rightarrow> jsstring list \<Rightarrow> jsstring" where
  "join sep [] = []"
| "join sep [x] = x"
| "join sep (x # y # ys) = x @ sep @ join sep (y # ys)"

text \<open>
  \<open>SerializeJSONProperty\<close> with its \<open>gap\<close> and current \<open>indent\<close>: with an empty gap the
  output is compact, otherwise every element and member starts on a line of its own
  (\<open>brk\<close> is the line break with its indentation, empty when the gap is). A number that
  is not finite is written \<open>null\<close>.
\<close>

definition brk :: "jsstring \<Rightarrow> jsstring \<Rightarrow> jsstring" where
  "brk gap ind = (if gap = [] then [] else newline # ind)"

definition wrap ::
  "jsstring \<Rightarrow> jsstring \<Rightarrow> jsstring \<Rightarrow> 16 word \<Rightarrow> 16 word \<Rightarrow> jsstring list \<Rightarrow> jsstring" where
  "wrap gap ind ind' l r parts =
     (if parts = [] then [l, r]
      else l # brk gap ind' @ join (cu CHR '','' # brk gap ind') parts @ brk gap ind @ [r])"

fun SerializeJSONProperty :: "jsstring \<Rightarrow> jsstring \<Rightarrow> json \<Rightarrow> jsstring" where
  "SerializeJSONProperty gap ind JNull = js ''null''"
| "SerializeJSONProperty gap ind (JBool b) = (if b then js ''true'' else js ''false'')"
| "SerializeJSONProperty gap ind (JNum x) =
     (case x of Infinite neg \<Rightarrow> js ''null'' | Finite neg s e \<Rightarrow> Number_toString x)"
| "SerializeJSONProperty gap ind (JStr s) = QuoteJSONString s"
| "SerializeJSONProperty gap ind (JArr xs) =
     wrap gap ind (ind @ gap) (cu CHR ''['') (cu CHR '']'')
       (map (SerializeJSONProperty gap (ind @ gap)) xs)"
| "SerializeJSONProperty gap ind (JObj ms) =
     wrap gap ind (ind @ gap) (cu CHR ''{'') (cu CHR ''}'')
       (map (\<lambda>m. QuoteJSONString (fst m) @ cu CHR '':'' # (if gap = [] then [] else [cu CHR '' ''])
                   @ SerializeJSONProperty gap (ind @ gap) (snd m)) ms)"

text \<open>\<open>JSON.stringify(v)\<close> and \<open>JSON.stringify(v, null, 2)\<close>.\<close>

definition JSON_stringify :: "json \<Rightarrow> jsstring" where
  "JSON_stringify v = SerializeJSONProperty [] [] v"

definition JSON_stringify_2 :: "json \<Rightarrow> jsstring" where
  "JSON_stringify_2 v = SerializeJSONProperty (js ''  '') [] v"

subsection \<open>\<open>JSON.parse\<close>\<close>

definition is_json_ws :: "16 word \<Rightarrow> bool" where
  "is_json_ws c =
     (c = cu CHR '' '' \<or> c = cu (CHR 0x09) \<or> c = cu (CHR 0x0A) \<or> c = cu (CHR 0x0D))"

definition skip_ws :: "jsstring \<Rightarrow> jsstring" where
  "skip_ws s = dropWhile is_json_ws s"

definition is_digit :: "16 word \<Rightarrow> bool" where
  "is_digit c = (48 \<le> unat c \<and> unat c \<le> 57)"

definition hex_val :: "16 word \<Rightarrow> nat option" where
  "hex_val c =
     (let n = unat c in
      if 48 \<le> n \<and> n \<le> 57 then Some (n - 48)
      else if 97 \<le> n \<and> n \<le> 102 then Some (n - 87)
      else if 65 \<le> n \<and> n \<le> 70 then Some (n - 55)
      else None)"

fun hex4 :: "jsstring \<Rightarrow> nat option" where
  "hex4 [a, b, c, d] =
     (case hex_val a of None \<Rightarrow> None | Some x \<Rightarrow>
     (case hex_val b of None \<Rightarrow> None | Some y \<Rightarrow>
     (case hex_val c of None \<Rightarrow> None | Some z \<Rightarrow>
     (case hex_val d of None \<Rightarrow> None | Some u \<Rightarrow> Some (((x * 16 + y) * 16 + z) * 16 + u)))))"
| "hex4 s = None"

definition unescape :: "16 word \<Rightarrow> 16 word option" where
  "unescape c =
     (if c = dquote then Some dquote
      else if c = bslash then Some bslash
      else if c = cu CHR ''/'' then Some (cu CHR ''/'')
      else if c = cu CHR ''b'' then Some (cu (CHR 0x08))
      else if c = cu CHR ''f'' then Some (cu (CHR 0x0C))
      else if c = cu CHR ''n'' then Some (cu (CHR 0x0A))
      else if c = cu CHR ''r'' then Some (cu (CHR 0x0D))
      else if c = cu CHR ''t'' then Some (cu (CHR 0x09))
      else None)"

text \<open>
  The characters of a string literal after its opening quote, up to the closing quote. A raw
  control character is a syntax error; an escape \<open>\uXXXX\<close> gives the code unit it names.
\<close>

fun parse_chars :: "jsstring \<Rightarrow> (jsstring \<times> jsstring) option" where
  "parse_chars [] = None"
| "parse_chars (c # r) =
     (if c = dquote then Some ([], r)
      else if c = bslash then
        (case r of
           [] \<Rightarrow> None
         | e # r' \<Rightarrow>
             if e = cu CHR ''u'' then
               (case hex4 (take 4 r') of
                  None \<Rightarrow> None
                | Some n \<Rightarrow> map_option (apfst ((#) (of_nat n))) (parse_chars (drop 4 r')))
             else
               (case unescape e of
                  None \<Rightarrow> None
                | Some c' \<Rightarrow> map_option (apfst ((#) c')) (parse_chars r')))
      else if unat c < 32 then None
      else map_option (apfst ((#) c)) (parse_chars r))"

text \<open>A number literal: \<open>-? (0 | [1-9][0-9]*) (. [0-9]+)? ([eE] [+-]? [0-9]+)?\<close>.\<close>

definition lex_sign :: "jsstring \<Rightarrow> jsstring \<times> jsstring" where
  "lex_sign s =
     (case s of [] \<Rightarrow> ([], s) | c # r \<Rightarrow> if c = cu CHR ''-'' then ([c], r) else ([], s))"

definition lex_int :: "jsstring \<Rightarrow> (jsstring \<times> jsstring) option" where
  "lex_int s =
     (case s of
        [] \<Rightarrow> None
      | c # r \<Rightarrow>
          if c = cu CHR ''0'' then Some ([c], r)
          else if is_digit c then Some (c # takeWhile is_digit r, dropWhile is_digit r)
          else None)"

definition lex_digits :: "jsstring \<Rightarrow> jsstring \<Rightarrow> (jsstring \<times> jsstring) option" where
  "lex_digits pre s =
     (if takeWhile is_digit s = [] then None
      else Some (pre @ takeWhile is_digit s, dropWhile is_digit s))"

definition lex_frac :: "jsstring \<Rightarrow> (jsstring \<times> jsstring) option" where
  "lex_frac s =
     (case s of
        [] \<Rightarrow> Some ([], s)
      | c # r \<Rightarrow> if c = cu CHR ''.'' then lex_digits [c] r else Some ([], s))"

definition lex_exp :: "jsstring \<Rightarrow> (jsstring \<times> jsstring) option" where
  "lex_exp s =
     (case s of
        [] \<Rightarrow> Some ([], s)
      | c # r \<Rightarrow>
          if c = cu CHR ''e'' \<or> c = cu CHR ''E'' then
            (case r of
               [] \<Rightarrow> None
             | d # r' \<Rightarrow>
                 if d = cu CHR ''+'' \<or> d = cu CHR ''-'' then lex_digits [c, d] r'
                 else lex_digits [c] r)
          else Some ([], s))"

definition lex_number :: "jsstring \<Rightarrow> (jsstring \<times> jsstring) option" where
  "lex_number s =
     (case lex_sign s of (sg, r0) \<Rightarrow>
     (case lex_int r0 of None \<Rightarrow> None | Some (i, r1) \<Rightarrow>
     (case lex_frac r1 of None \<Rightarrow> None | Some (f, r2) \<Rightarrow>
     (case lex_exp r2 of None \<Rightarrow> None | Some (x, r3) \<Rightarrow> Some (sg @ i @ f @ x, r3)))))"

text \<open>
  The keys of an object come in the order of \<open>OrdinaryOwnPropertyKeys\<close>: array indices
  first, ascending, then the other keys in the order of their creation. Defining a key that
  exists replaces its value where it stands.
\<close>

definition dec_val :: "jsstring \<Rightarrow> int" where
  "dec_val k = foldl (\<lambda>a c. 10 * a + (int (unat c) - 48)) 0 k"

definition is_index_key :: "jsstring \<Rightarrow> bool" where
  "is_index_key k =
     (k \<noteq> [] \<and> list_all is_digit k \<and> (hd k = cu CHR ''0'' \<longrightarrow> length k = 1)
      \<and> dec_val k < 4294967295)"

definition key_before :: "jsstring \<Rightarrow> jsstring \<Rightarrow> bool" where
  "key_before k k' = (is_index_key k \<and> (\<not> is_index_key k' \<or> dec_val k < dec_val k'))"

fun insert_key :: "jsstring \<Rightarrow> json \<Rightarrow> (jsstring \<times> json) list \<Rightarrow> (jsstring \<times> json) list" where
  "insert_key k v [] = [(k, v)]"
| "insert_key k v (m # ms) =
     (if key_before k (fst m) then (k, v) # m # ms else m # insert_key k v ms)"

definition CreateDataProperty ::
  "(jsstring \<times> json) list \<Rightarrow> jsstring \<times> json \<Rightarrow> (jsstring \<times> json) list" where
  "CreateDataProperty ms kv =
     (if fst kv \<in> fst ` set ms then map (\<lambda>m. if fst m = fst kv then kv else m) ms
      else insert_key (fst kv) (snd kv) ms)"

text \<open>
  The recursive descent over the text. \<open>num\<close> is the platform's reading of a number
  literal: the Number value nearest to it. The fuel bounds the depth of the calls; a text
  never needs more than its length, since each call consumes a character before it calls
  again (\<open>parse_value_any_fuel\<close> below). The result is the value read and the rest of the
  text. No limit of an engine on the length or the nesting of a text is modelled.
\<close>

fun parse_value :: "(jsstring \<Rightarrow> jsnum) \<Rightarrow> nat \<Rightarrow> jsstring \<Rightarrow> (json \<times> jsstring) option"
  and parse_elements ::
    "(jsstring \<Rightarrow> jsnum) \<Rightarrow> nat \<Rightarrow> jsstring \<Rightarrow> (json list \<times> jsstring) option"
  and parse_members ::
    "(jsstring \<Rightarrow> jsnum) \<Rightarrow> nat \<Rightarrow> jsstring \<Rightarrow> ((jsstring \<times> json) list \<times> jsstring) option"
where
  "parse_value num 0 s = None"
| "parse_value num (Suc n) s =
     (case skip_ws s of
        [] \<Rightarrow> None
      | c # r \<Rightarrow>
          if c = cu CHR ''['' then
            (case skip_ws r of
               [] \<Rightarrow> None
             | c' # r' \<Rightarrow>
                 if c' = cu CHR '']'' then Some (JArr [], r')
                 else map_option (apfst JArr) (parse_elements num n (c' # r')))
          else if c = cu CHR ''{'' then
            (case skip_ws r of
               [] \<Rightarrow> None
             | c' # r' \<Rightarrow>
                 if c' = cu CHR ''}'' then Some (JObj [], r')
                 else map_option (apfst (\<lambda>ms. JObj (foldl CreateDataProperty [] ms)))
                        (parse_members num n (c' # r')))
          else if c = dquote then map_option (apfst JStr) (parse_chars r)
          else if take 4 (c # r) = js ''true'' then Some (JBool True, drop 3 r)
          else if take 5 (c # r) = js ''false'' then Some (JBool False, drop 4 r)
          else if take 4 (c # r) = js ''null'' then Some (JNull, drop 3 r)
          else map_option (apfst (\<lambda>l. JNum (num l))) (lex_number (c # r)))"
| "parse_elements num 0 s = None"
| "parse_elements num (Suc n) s =
     (case parse_value num n s of
        None \<Rightarrow> None
      | Some (v, r) \<Rightarrow>
          (case skip_ws r of
             [] \<Rightarrow> None
           | c # r' \<Rightarrow>
               if c = cu CHR '','' then map_option (apfst ((#) v)) (parse_elements num n r')
               else if c = cu CHR '']'' then Some ([v], r')
               else None))"
| "parse_members num 0 s = None"
| "parse_members num (Suc n) s =
     (case skip_ws s of
        [] \<Rightarrow> None
      | c # r \<Rightarrow>
          if c \<noteq> dquote then None
          else
            (case parse_chars r of
               None \<Rightarrow> None
             | Some (k, r1) \<Rightarrow>
                 (case skip_ws r1 of
                    [] \<Rightarrow> None
                  | c1 # r2 \<Rightarrow>
                      if c1 \<noteq> cu CHR '':'' then None
                      else
                        (case parse_value num n r2 of
                           None \<Rightarrow> None
                         | Some (v, r3) \<Rightarrow>
                             (case skip_ws r3 of
                                [] \<Rightarrow> None
                              | c3 # r4 \<Rightarrow>
                                  if c3 = cu CHR '','' then
                                    map_option (apfst ((#) (k, v))) (parse_members num n r4)
                                  else if c3 = cu CHR ''}'' then Some ([(k, v)], r4)
                                  else None)))))"

text \<open>\<open>JSON.parse(text)\<close>: \<open>None\<close> stands for the \<open>SyntaxError\<close> it throws.\<close>

definition JSON_parse :: "(jsstring \<Rightarrow> jsnum) \<Rightarrow> jsstring \<Rightarrow> json option" where
  "JSON_parse num s =
     (case parse_value num (Suc (length s)) s of
        None \<Rightarrow> None
      | Some (v, r) \<Rightarrow> if skip_ws r = [] then Some v else None)"

text \<open>
  What \<open>JSON.parse\<close> reads from the text \<open>JSON.stringify\<close> writes for a value: the value
  itself, but for a number that is not finite, which comes back as \<open>null\<close>. (A finite number
  is read from what was printed for it, and an object is built key by key.)
\<close>

fun reread :: "(jsstring \<Rightarrow> jsnum) \<Rightarrow> json \<Rightarrow> json" where
  "reread num JNull = JNull"
| "reread num (JBool b) = JBool b"
| "reread num (JNum x) =
     (case x of Infinite neg \<Rightarrow> JNull | Finite neg s e \<Rightarrow> JNum (num (Number_toString x)))"
| "reread num (JStr s) = JStr s"
| "reread num (JArr xs) = JArr (map (reread num) xs)"
| "reread num (JObj ms) =
     JObj (foldl CreateDataProperty [] (map (\<lambda>m. (fst m, reread num (snd m))) ms))"

section \<open>The environment and the state of the page\<close>

text \<open>
  What the platform decides is a parameter: how \<open>new Date(text)\<close> reads a text in the local
  time zone (\<open>None\<close> for an invalid date), how a date prints, the current instant, the parts
  \<open>Intl.DateTimeFormat\<close> gives for the file name, the Number value of a number literal,
  and whether \<open>localStorage\<close> throws. Instants are milliseconds since the epoch.
\<close>

record env =
  Date_parse :: "jsstring \<Rightarrow> int option"
  toISOString :: "int \<Rightarrow> jsstring"
  now :: int
  formatToParts :: "int \<Rightarrow> (jsstring \<times> jsstring) list"
  Number_read :: "jsstring \<Rightarrow> jsnum"
  setItem_throws :: bool
  getItem_throws :: bool

text \<open>The values of the eight input fields of the form, under the ids of their elements.\<close>

record inputs =
  inTrain :: jsstring
  inOrigin :: jsstring
  inDest :: jsstring
  inDepartDate :: jsstring
  inDepartTime :: jsstring
  inArriveDate :: jsstring
  inArriveTime :: jsstring
  inNotes :: jsstring

text \<open>
  What the user and the console see, in the order it happens: the fixed messages of
  \<open>alert\<close> and \<open>console.warn\<close>, the text of the blob an object URL is made for, the
  name of the download, and the release of the URL.
\<close>

datatype event =
    Alert string
  | Warn string
  | CreateObjectURL jsstring
  | Download jsstring
  | RevokeObjectURL

text \<open>
  \<open>state.trips\<close>, the entry of \<open>localStorage\<close> under \<open>LS_KEY\<close> (\<open>None\<close> when absent),
  the form, and the events so far. The table drawn by \<open>render\<close> is a projection of
  \<open>state.trips\<close> and is not kept.
\<close>

record world =
  trips :: "json list"
  storage :: "jsstring option"
  form :: inputs
  events :: "event list"

section \<open>Time utilities\<close>

definition buildLocalDate :: "env \<Rightarrow> jsstring \<Rightarrow> jsstring \<Rightarrow> int option" where
  "buildLocalDate e dateStr timeStr =
     (if dateStr = [] \<or> timeStr = [] then None
      else Date_parse e (dateStr @ js ''T'' @ timeStr))"

text \<open>\<open>Object.fromEntries\<close> keeps the last entry of a key; a missing key prints as \<open>undefined\<close>.\<close>

definition part :: "(jsstring \<times> jsstring) list \<Rightarrow> string \<Rightarrow> jsstring" where
  "part p k = (case map_of (rev p) (js k) of Some v \<Rightarrow> v | None \<Rightarrow> js ''undefined'')"

definition stampFilename :: "env \<Rightarrow> jsstring" where
  "stampFilename e =
     (let p = formatToParts e (now e) in
      js ''itin-'' @ part p ''year'' @ part p ''month'' @ part p ''day'' @ js ''-''
        @ part p ''hour'' @ part p ''minute'' @ part p ''second'' @ js ''.json'')"

section \<open>Persistence\<close>

definition saveState :: "env \<Rightarrow> world \<Rightarrow> world" where
  "saveState e w =
     (if setItem_throws e
      then w\<lparr>events := events w @ [Warn ''Failed to save trips to localStorage:'']\<rparr>
      else w\<lparr>storage := Some (JSON_stringify (JArr (trips w)))\<rparr>)"

definition loadState :: "env \<Rightarrow> world \<Rightarrow> world" where
  "loadState e w =
     (if getItem_throws e
      then w\<lparr>events := events w @ [Warn ''Failed to load trips from localStorage:'']\<rparr>
      else
        (case storage w of
           None \<Rightarrow> w
         | Some raw \<Rightarrow>
             if raw = [] then w
             else
               (case JSON_parse (Number_read e) raw of
                  None \<Rightarrow> w\<lparr>events := events w @ [Warn ''Failed to load trips from localStorage:'']\<rparr>
                | Some parsed \<Rightarrow>
                    (case parsed of JArr xs \<Rightarrow> w\<lparr>trips := xs\<rparr> | _ \<Rightarrow> w))))"

section \<open>Data collection\<close>

text \<open>\<open>String.prototype.trim\<close> strips the white space and the line terminators.\<close>

definition is_space :: "16 word \<Rightarrow> bool" where
  "is_space c =
     (unat c \<in> {0x09, 0x0A, 0x0B, 0x0C, 0x0D, 0x20, 0xA0, 0x1680, 0x2028, 0x2029, 0x202F,
                 0x205F, 0x3000, 0xFEFF}
      \<or> (0x2000 \<le> unat c \<and> unat c \<le> 0x200A))"

definition trim :: "jsstring \<Rightarrow> jsstring" where
  "trim s = rev (dropWhile is_space (rev (dropWhile is_space s)))"

definition requiredOK :: "inputs \<Rightarrow> bool" where
  "requiredOK f = (trim (inTrain f) \<noteq> [] \<and> trim (inOrigin f) \<noteq> [] \<and> trim (inDest f) \<noteq> [])"

definition instant :: "env \<Rightarrow> int option \<Rightarrow> jsstring" where
  "instant e dt = (case dt of None \<Rightarrow> [] | Some d \<Rightarrow> toISOString e d)"

definition collectTrip :: "env \<Rightarrow> inputs \<Rightarrow> json" where
  "collectTrip e f =
     (let departDt = buildLocalDate e (inDepartDate f) (inDepartTime f);
          arriveDt = buildLocalDate e (inArriveDate f) (inArriveTime f)
      in JObj [
        (js ''train'', JStr (trim (inTrain f))),
        (js ''origin'', JStr (trim (inOrigin f))),
        (js ''destination'', JStr (trim (inDest f))),
        (js ''depart'', JObj [
           (js ''date'', JStr (inDepartDate f)),
           (js ''time'', JStr (inDepartTime f)),
           (js ''isoUtc'', JStr (instant e departDt))]),
        (js ''arrive'', JObj [
           (js ''date'', JStr (inArriveDate f)),
           (js ''time'', JStr (inArriveTime f)),
           (js ''isoUtc'', JStr (instant e arriveDt))]),
        (js ''notes'', JStr (trim (inNotes f))),
        (js ''createdAt'', JStr (toISOString e (now e)))])"

definition clearInputs :: "world \<Rightarrow> world" where
  "clearInputs w =
     w\<lparr>form := \<lparr>inTrain = [], inOrigin = [], inDest = [], inDepartDate = [], inDepartTime = [],
                 inArriveDate = [], inArriveTime = [], inNotes = []\<rparr>\<rparr>"

section \<open>Handlers\<close>

definition onAdd :: "env \<Rightarrow> world \<Rightarrow> world" where
  "onAdd e w =
     (if \<not> requiredOK (form w)
      then w\<lparr>events := events w @ [Alert ''Train, Origin, and Destination are required.'']\<rparr>
      else clearInputs (saveState e (w\<lparr>trips := trips w @ [collectTrip e (form w)]\<rparr>)))"

text \<open>
  \<open>Array.prototype.splice(start, deleteCount)\<close> on the list: a negative start counts from
  the end, and both numbers are clamped to the list.
\<close>

definition splice_js :: "int \<Rightarrow> int \<Rightarrow> 'a list \<Rightarrow> 'a list" where
  "splice_js start deleteCount xs =
     (let len = int (length xs);
          actualStart = (if start < 0 then max (len + start) 0 else min start len);
          actualDeleteCount = min (max deleteCount 0) (len - actualStart)
      in take (nat actualStart) xs @ drop (nat (actualStart + actualDeleteCount)) xs)"

text \<open>
  \<open>Number(tr.dataset.index)\<close> as far as \<open>Number.isInteger\<close> tells numbers apart: an
  integral value, or anything else (\<open>NaN\<close>, an infinity, a fraction).
\<close>

datatype jsnumber = Integral int | NonIntegral

text \<open>
  \<open>onDelete\<close> receives the row \<open>target.closest("tr")\<close> found (\<open>None\<close> when there is none),
  given by the number its \<open>data-index\<close> converts to.
\<close>

definition onDelete :: "env \<Rightarrow> jsnumber option \<Rightarrow> world \<Rightarrow> world" where
  "onDelete e tr w =
     (case tr of
        None \<Rightarrow> w
      | Some idx \<Rightarrow>
          (case idx of
             NonIntegral \<Rightarrow> w
           | Integral i \<Rightarrow> saveState e (w\<lparr>trips := splice_js i 1 (trips w)\<rparr>)))"

definition onSave :: "env \<Rightarrow> world \<Rightarrow> world" where
  "onSave e w =
     (if length (trips w) = 0
      then w\<lparr>events := events w @ [Alert ''No trips to save yet.'']\<rparr>
      else w\<lparr>events := events w @
             [CreateObjectURL (JSON_stringify_2 (JObj [(js ''trips'', JArr (trips w))])),
              Download (stampFilename e),
              RevokeObjectURL]\<rparr>)"

section \<open>Trips, and the states the page can reach\<close>

text \<open>\<open>t.k\<close> on a value: the own property of an object, nothing otherwise.\<close>

definition get_field :: "string \<Rightarrow> json \<Rightarrow> json option" where
  "get_field k v = (case v of JObj ms \<Rightarrow> map_of ms (js k) | _ \<Rightarrow> None)"

text \<open>A required field is a text that is neither empty nor only white space.\<close>

definition nonblank_field :: "string \<Rightarrow> json \<Rightarrow> bool" where
  "nonblank_field k v = (case get_field k v of Some (JStr s) \<Rightarrow> trim s \<noteq> [] | _ \<Rightarrow> False)"

definition required_present :: "json \<Rightarrow> bool" where
  "required_present v =
     (nonblank_field ''train'' v \<and> nonblank_field ''origin'' v \<and> nonblank_field ''destination'' v)"

text \<open>The shape of a Trip: the seven fields of \<open>collectTrip\<close>, texts and two time records.\<close>

definition is_string :: "json \<Rightarrow> bool" where
  "is_string v = (case v of JStr s \<Rightarrow> True | _ \<Rightarrow> False)"

definition is_timepoint :: "json \<Rightarrow> bool" where
  "is_timepoint v =
     (case v of
        JObj ms \<Rightarrow>
          map fst ms = map js [''date'', ''time'', ''isoUtc''] \<and> list_all is_string (map snd ms)
      | _ \<Rightarrow> False)"

definition is_trip :: "json \<Rightarrow> bool" where
  "is_trip v =
     (case v of
        JObj ms \<Rightarrow>
          map fst ms = map js [''train'', ''origin'', ''destination'', ''depart'', ''arrive'',
                               ''notes'', ''createdAt'']
          \<and> list_all2 (\<lambda>p x. p x)
                [is_string, is_string, is_string, is_timepoint, is_timepoint, is_string, is_string]
                (map snd ms)
      | _ \<Rightarrow> False)"

text \<open>
  Values without numbers whose objects have distinct keys, none of them an array index:
  the values that \<open>JSON.parse\<close> gives back exactly as they were written.
\<close>

fun plain :: "json \<Rightarrow> bool" where
  "plain JNull = True"
| "plain (JBool b) = True"
| "plain (JNum x) = False"
| "plain (JStr s) = True"
| "plain (JArr xs) = (\<forall>x \<in> set xs. plain x)"
| "plain (JObj ms) =
     (distinct (map fst ms) \<and> (\<forall>m \<in> set ms. \<not> is_index_key (fst m) \<and> plain (snd m)))"

text \<open>An object of JavaScript has each key once.\<close>

definition distinct_keys :: "json \<Rightarrow> bool" where
  "distinct_keys v = (case v of JObj ms \<Rightarrow> distinct (map fst ms) | _ \<Rightarrow> True)"

text \<open>
  A stored payload that brings no trip without its required fields: it is absent, or does
  not parse to a sequence, or every element of the sequence has them.
\<close>

definition payload_ok :: "(jsstring \<Rightarrow> jsnum) \<Rightarrow> jsstring option \<Rightarrow> bool" where
  "payload_ok num st =
     (case st of
        None \<Rightarrow> True
      | Some raw \<Rightarrow>
          (case JSON_parse num raw of
             Some (JArr xs) \<Rightarrow> list_all required_present xs
           | _ \<Rightarrow> True))"

text \<open>
  The states of a session on a platform that reads numbers by \<open>num\<close>: the page boots with
  the empty list over the stored payload \<open>st\<close>; then the user types into the form, and the
  page loads, adds and deletes, each in the environment of its moment.
\<close>

inductive reachable :: "(jsstring \<Rightarrow> jsnum) \<Rightarrow> jsstring option \<Rightarrow> world \<Rightarrow> bool"
  for num :: "jsstring \<Rightarrow> jsnum" and st :: "jsstring option" where
  boot: "reachable num st \<lparr>trips = [], storage = st, form = f, events = []\<rparr>"
| typing: "reachable num st w \<Longrightarrow> reachable num st (w\<lparr>form := f\<rparr>)"
| load: "reachable num st w \<Longrightarrow> Number_read e = num \<Longrightarrow> reachable num st (loadState e w)"
| add: "reachable num st w \<Longrightarrow> Number_read e = num \<Longrightarrow> reachable num st (onAdd e w)"
| delete: "reachable num st w \<Longrightarrow> Number_read e = num \<Longrightarrow> reachable num st (onDelete e tr w)"

text \<open>
  What a serialized value starts with, and what may follow it in a text: a character that
  opens a value, and the end or a character that closes one.
\<close>

definition opener :: "16 word \<Rightarrow> bool" where
  "opener c =
     (\<not> is_json_ws c \<and> c \<noteq> cu CHR '']'' \<and> c \<noteq> cu CHR ''}'' \<and> c \<noteq> cu CHR '','')"

definition closes :: "jsstring \<Rightarrow> bool" where
  "closes rest =
     (case rest of
        [] \<Rightarrow> True
      | c # r \<Rightarrow> is_json_ws c \<or> c = cu CHR '','' \<or> c = cu CHR '']'' \<or> c = cu CHR ''}'')"

text \<open>
  The parts of a number as it is printed: a sign, an integer part without a leading zero,
  the digits of a fraction, and an exponent with its sign.
\<close>

definition printed :: "jsstring \<Rightarrow> jsstring \<Rightarrow> jsstring \<Rightarrow> jsstring \<Rightarrow> bool" where
  "printed S I F X =
     ((S = [] \<or> S = [cu CHR ''-''])
      \<and> I \<noteq> [] \<and> (\<forall>c \<in> set I. is_digit c) \<and> (hd I = cu CHR ''0'' \<longrightarrow> I = [cu CHR ''0''])
      \<and> (\<forall>c \<in> set F. is_digit c)
      \<and> (X = [] \<or> (\<exists>sg D. X = cu CHR ''e'' # sg # D \<and> (sg = cu CHR ''+'' \<or> sg = cu CHR ''-'')
                          \<and> D \<noteq> [] \<and> (\<forall>c \<in> set D. is_digit c))))"

section \<open>A session used in the examples\<close>

text \<open>An environment that reads the dates and the number literals of the examples.\<close>

definition ex_env :: env where
  "ex_env =
     \<lparr>Date_parse = (\<lambda>s. if s = js ''2024-06-01T08:00'' then Some 1717254000000
                        else if s = js ''2024-06-01T10:30'' then Some 1717263000000
                        else None),
      toISOString = (\<lambda>t. if t = 1717254000000 then js ''2024-06-01T15:00:00.000Z''
                         else if t = 1717263000000 then js ''2024-06-01T17:30:00.000Z''
                         else js ''2024-06-01T12:00:00.000Z''),
      now = 1717243200000,
      formatToParts = (\<lambda>t. [(js ''year'', js ''2024''), (js ''literal'', js ''-''),
                             (js ''month'', js ''06''), (js ''literal'', js ''-''),
                             (js ''day'', js ''01''), (js ''literal'', js '', ''),
                             (js ''hour'', js ''05''), (js ''literal'', js '':''),
                             (js ''minute'', js ''00''), (js ''literal'', js '':''),
                             (js ''second'', js ''00'')]),
      Number_read = (\<lambda>l. if l = js ''1.0'' \<or> l = js ''1'' then Finite False 1 0
                         else if l = js ''12'' then Finite False 12 0
                         else if l = js ''1E400'' then Infinite False
                         else Finite False 0 0),
      setItem_throws = False,
      getItem_throws = False\<rparr>"

definition ex_blank :: inputs where
  "ex_blank =
     \<lparr>inTrain = [], inOrigin = [], inDest = [], inDepartDate = [], inDepartTime = [],
      inArriveDate = [], inArriveTime = [], inNotes = []\<rparr>"

definition ex_form :: inputs where
  "ex_form =
     \<lparr>inTrain = js '' 14'', inOrigin = js ''SJC'', inDest = js ''SAC '',
      inDepartDate = js ''2024-06-01'', inDepartTime = js ''08:00'',
      inArriveDate = js ''2024-06-01'', inArriveTime = js ''10:30'', inNotes = js '' window ''\<rparr>"

definition ex_trip :: json where
  "ex_trip =
     JObj [
       (js ''train'', JStr (js ''14'')),
       (js ''origin'', JStr (js ''SJC'')),
       (js ''destination'', JStr (js ''SAC'')),
       (js ''depart'', JObj [(js ''date'', JStr (js ''2024-06-01'')),
                             (js ''time'', JStr (js ''08:00'')),
                             (js ''isoUtc'', JStr (js ''2024-06-01T15:00:00.000Z''))]),
       (js ''arrive'', JObj [(js ''date'', JStr (js ''2024-06-01'')),
                             (js ''time'', JStr (js ''10:30'')),
                             (js ''isoUtc'', JStr (js ''2024-06-01T17:30:00.000Z''))]),
       (js ''notes'', JStr (js ''window'')),
       (js ''createdAt'', JStr (js ''2024-06-01T12:00:00.000Z''))]"

definition ex_other :: json where
  "ex_other =
     JObj [
       (js ''train'', JStr (js ''5'')),
       (js ''origin'', JStr (js ''EMY'')),
       (js ''destination'', JStr (js ''CHI'')),
       (js ''depart'', JObj [(js ''date'', JStr []), (js ''time'', JStr []),
                             (js ''isoUtc'', JStr [])]),
       (js ''arrive'', JObj [(js ''date'', JStr []), (js ''time'', JStr []),
                             (js ''isoUtc'', JStr [])]),
       (js ''notes'', JStr []),
       (js ''createdAt'', JStr (js ''2024-06-01T12:00:00.000Z''))]"

definition ex_world :: "json list \<Rightarrow> world" where
  "ex_world ts = \<lparr>trips = ts, storage = None, form = ex_form, events = []\<rparr>"

text \<open>
  A stored payload whose only trip has an empty train:
  \<open>[{"train":"","origin":"SJC","destination":"SAC"}]\<close>.
\<close>

definition ex_bad_payload :: jsstring where
  "ex_bad_payload =
     js ''[{'' @ dquote # js ''train'' @ dquote # js '':'' @ dquote # dquote # js '',''
       @ dquote # js ''origin'' @ dquote # js '':'' @ dquote # js ''SJC'' @ dquote # js '',''
       @ dquote # js ''destination'' @ dquote # js '':'' @ dquote # js ''SAC'' @ dquote # js ''}]''"

definition ex_bad_trip :: json where
  "ex_bad_trip =
     JObj [(js ''train'', JStr []), (js ''origin'', JStr (js ''SJC'')),
           (js ''destination'', JStr (js ''SAC''))]"

text \<open>
  A stored payload of another shape, with a number and an escaped code unit:
  \<open>[{"seat":12,"train":"\u0100","origin":"SJC","destination":"SAC"}]\<close>.
\<close>

definition ex_foreign_payload :: jsstring where
  "ex_foreign_payload =
     js ''[{'' @ dquote # js ''seat'' @ dquote # js '':12,''
       @ dquote # js ''train'' @ dquote # js '':'' @ dquote # bslash # js ''u0100'' @ dquote # js '',''
       @ dquote # js ''origin'' @ dquote # js '':'' @ dquote # js ''SJC'' @ dquote # js '',''
       @ dquote # js ''destination'' @ dquote # js '':'' @ dquote # js ''SAC'' @ dquote # js ''}]''"

definition ex_foreign_trip :: json where
  "ex_foreign_trip =
     JObj [(js ''seat'', JNum (Finite False 12 0)), (js ''train'', JStr [0x100]),
           (js ''origin'', JStr (js ''SJC'')), (js ''destination'', JStr (js ''SAC''))]"


section \<open>Code units\<close>

lemma unat_cu [simp]: "unat (cu c) = of_char c"
proof -
  have "(of_char c :: nat) < 256" by (rule nat_of_char_less_256)
  then have "(of_char c :: nat) < 65536" by linarith
  then show ?thesis by (simp add: cu_def unat_of_nat)
qed

lemma cu_eq_iff [simp]: "cu a = cu b \<longleftrightarrow> a = b"
proof
  assume "cu a = cu b"
  then have "unat (cu a) = unat (cu b)" by simp
  then show "a = b" by simp
qed simp

section \<open>Deleting a row\<close>

lemma trips_saveState: "trips (saveState e w) = trips w"
  by (simp add: saveState_def)

lemma splice_one_inside:
  assumes "0 \<le> i" and "i < int (length xs)"
  shows "splice_js i 1 xs = take (nat i) xs @ drop (Suc (nat i)) xs"
proof -
  have "nat (i + 1) = Suc (nat i)" using assms by simp
  moreover have "min (1::int) (int (length xs) - i) = 1" using assms by simp
  ultimately show ?thesis using assms by (simp add: splice_js_def Let_def min_absorb1)
qed

lemma splice_one_beyond:
  assumes "int (length xs) \<le> i"
  shows "splice_js i 1 xs = xs"
  using assms by (simp add: splice_js_def Let_def min_absorb2)

lemma splice_one_negative:
  assumes "i < 0" and "xs \<noteq> []"
  shows "splice_js i 1 xs = take (nat (max (int (length xs) + i) 0)) xs
           @ drop (Suc (nat (max (int (length xs) + i) 0))) xs"
proof -
  define k where "k = max (int (length xs) + i) 0"
  have k: "0 \<le> k" "k < int (length xs)" using assms by (auto simp: k_def)
  have "nat (k + 1) = Suc (nat k)" using k by simp
  moreover have "min (1::int) (int (length xs) - k) = 1" using k by simp
  ultimately show ?thesis using assms by (simp add: splice_js_def Let_def k_def [symmetric])
qed

text \<open>
  What a negative integer does: \<open>splice\<close> counts it from the end, so on a list that is
  not empty the element at position \<open>max (n + i) 0\<close> goes.
\<close>

lemma onDelete_negative_index:
  assumes "i < 0" and "trips w \<noteq> []"
  shows "trips (onDelete e (Some (Integral i)) w) =
           take (nat (max (int (length (trips w)) + i) 0)) (trips w)
             @ drop (Suc (nat (max (int (length (trips w)) + i) 0))) (trips w)"
  using assms by (simp add: onDelete_def trips_saveState splice_one_negative)

text \<open>
  Claim C1, as amended. With an index \<open>i\<close> inside the list, \<open>onDelete\<close> removes the
  element at position \<open>i\<close> and nothing else: the list gets one shorter and the others keep
  their order. An integer index at or beyond the length leaves the list as it is, and so do
  a value that is not an integer and a click outside a row.
\<close>

theorem onDelete_by_index:
  "(0 \<le> i \<and> i < int (length (trips w)) \<longrightarrow>
      trips (onDelete e (Some (Integral i)) w)
        = take (nat i) (trips w) @ drop (Suc (nat i)) (trips w)
      \<and> Suc (length (trips (onDelete e (Some (Integral i)) w))) = length (trips w))
   \<and> (int (length (trips w)) \<le> i \<longrightarrow> trips (onDelete e (Some (Integral i)) w) = trips w)
   \<and> onDelete e (Some NonIntegral) w = w
   \<and> onDelete e None w = w"
proof (intro conjI impI)
  assume a: "0 \<le> i \<and> i < int (length (trips w))"
  then show "trips (onDelete e (Some (Integral i)) w)
      = take (nat i) (trips w) @ drop (Suc (nat i)) (trips w)"
    by (simp add: onDelete_def trips_saveState splice_one_inside)
  from a have "nat i < length (trips w)" by linarith
  then show "Suc (length (trips (onDelete e (Some (Integral i)) w))) = length (trips w)"
    using a by (simp add: onDelete_def trips_saveState splice_one_inside min_absorb2)
next
  assume "int (length (trips w)) \<le> i"
  then show "trips (onDelete e (Some (Integral i)) w) = trips w"
    by (simp add: onDelete_def trips_saveState splice_one_beyond)
qed (simp_all add: onDelete_def)

theorem onDelete_by_index_witness:
  "trips (onDelete ex_env (Some (Integral 0)) (ex_world [ex_trip, ex_other])) = [ex_other]
   \<and> trips (onDelete ex_env (Some (Integral 1)) (ex_world [ex_trip, ex_other])) = [ex_trip]
   \<and> trips (onDelete ex_env (Some (Integral 2)) (ex_world [ex_trip, ex_other]))
        = [ex_trip, ex_other]"
  using onDelete_by_index [of 0 "ex_world [ex_trip, ex_other]" ex_env]
    onDelete_by_index [of 1 "ex_world [ex_trip, ex_other]" ex_env]
    onDelete_by_index [of 2 "ex_world [ex_trip, ex_other]" ex_env]
  by (simp add: ex_world_def)

text \<open>
  The claim as first stated fails: the index \<open>-1\<close> lies outside \<open>[0, 2)\<close>, yet on a list
  of two trips it removes the last one.
\<close>

theorem onDelete_negative_counterexample:
  "\<not> (0 \<le> (- 1 :: int) \<and> (- 1 :: int) < int (length (trips (ex_world [ex_trip, ex_other]))))
   \<and> trips (onDelete ex_env (Some (Integral (- 1))) (ex_world [ex_trip, ex_other])) = [ex_trip]
   \<and> trips (onDelete ex_env (Some (Integral (- 1))) (ex_world [ex_trip, ex_other]))
        \<noteq> trips (ex_world [ex_trip, ex_other])"
  by (simp add: onDelete_def trips_saveState splice_js_def ex_world_def)

section \<open>Adding a trip\<close>

lemma trim_Nil_iff: "trim s = [] \<longleftrightarrow> (\<forall>c \<in> set s. is_space c)"
proof
  assume t: "trim s = []"
  show "\<forall>c \<in> set s. is_space c"
  proof (cases "dropWhile is_space s")
    case Nil
    then show ?thesis by (simp add: dropWhile_eq_Nil_conv)
  next
    case (Cons c r)
    then have "\<not> is_space c" using hd_dropWhile [of is_space s] by simp
    moreover from t Cons have "\<forall>x \<in> set (c # r). is_space x"
      by (simp add: trim_def dropWhile_eq_Nil_conv)
    ultimately show ?thesis by simp
  qed
next
  assume "\<forall>c \<in> set s. is_space c"
  then show "trim s = []" by (auto simp: trim_def dest: set_dropWhileD)
qed

lemma trips_clearInputs: "trips (clearInputs w) = trips w"
  by (simp add: clearInputs_def)

lemma trips_onAdd:
  "requiredOK (form w) \<Longrightarrow> trips (onAdd e w) = trips w @ [collectTrip e (form w)]"
  by (simp add: onAdd_def trips_clearInputs trips_saveState)

text \<open>
  Claim C3. When one of train, origin and destination is empty after trimming (that is,
  empty or only white space), \<open>onAdd\<close> shows the blocking notice and does nothing else:
  the list, the stored entry and the form are as before.
\<close>

theorem onAdd_blank_aborts:
  "trim (inTrain (form w)) = [] \<or> trim (inOrigin (form w)) = [] \<or> trim (inDest (form w)) = []
   \<Longrightarrow> onAdd e w = w\<lparr>events := events w @ [Alert ''Train, Origin, and Destination are required.'']\<rparr>
       \<and> trips (onAdd e w) = trips w
       \<and> storage (onAdd e w) = storage w"
  by (auto simp: onAdd_def requiredOK_def)

theorem onAdd_blank_aborts_witness:
  "onAdd ex_env (ex_world [ex_trip]\<lparr>form := ex_form\<lparr>inOrigin := js ''  ''\<rparr>\<rparr>)
     = \<lparr>trips = [ex_trip], storage = None, form = ex_form\<lparr>inOrigin := js ''  ''\<rparr>,
        events = [Alert ''Train, Origin, and Destination are required.'']\<rparr>"
  using onAdd_blank_aborts
    [of "ex_world [ex_trip]\<lparr>form := ex_form\<lparr>inOrigin := js ''  ''\<rparr>\<rparr>" ex_env]
  by (simp add: ex_world_def ex_form_def trim_def is_space_def js_def)

text \<open>
  Claim C4. When train, origin and destination are all non-empty after trimming, \<open>onAdd\<close>
  makes the list one longer by appending the new Trip at the end: every Trip that was
  there keeps its position and value, and the new Trip holds the required fields and the
  notes trimmed.
\<close>

theorem onAdd_appends:
  "trim (inTrain (form w)) \<noteq> [] \<and> trim (inOrigin (form w)) \<noteq> [] \<and> trim (inDest (form w)) \<noteq> []
   \<Longrightarrow> trips (onAdd e w) = trips w @ [collectTrip e (form w)]
       \<and> length (trips (onAdd e w)) = Suc (length (trips w))
       \<and> take (length (trips w)) (trips (onAdd e w)) = trips w
       \<and> get_field ''train'' (collectTrip e (form w)) = Some (JStr (trim (inTrain (form w))))
       \<and> get_field ''origin'' (collectTrip e (form w)) = Some (JStr (trim (inOrigin (form w))))
       \<and> get_field ''destination'' (collectTrip e (form w)) = Some (JStr (trim (inDest (form w))))
       \<and> get_field ''notes'' (collectTrip e (form w)) = Some (JStr (trim (inNotes (form w))))"
  by (simp add: trips_onAdd requiredOK_def collectTrip_def get_field_def Let_def js_def)

theorem onAdd_appends_witness:
  "trips (onAdd ex_env (ex_world [ex_other])) = [ex_other, ex_trip]"
  using onAdd_appends [of "ex_world [ex_other]" ex_env]
  by (simp add: ex_world_def ex_form_def ex_trip_def ex_env_def collectTrip_def
      buildLocalDate_def instant_def trim_def is_space_def js_def)

section \<open>Reading a date and a time\<close>

text \<open>
  Claim C7. \<open>buildLocalDate\<close> is a total function of its two texts. It returns nothing
  exactly when one of them is empty or the combined text \<open>date T time\<close> is not a valid
  date, and otherwise the instant the combined text denotes.
\<close>

theorem buildLocalDate_null_iff:
  "(buildLocalDate e d t = None
      \<longleftrightarrow> d = [] \<or> t = [] \<or> Date_parse e (d @ js ''T'' @ t) = None)
   \<and> (\<forall>i. buildLocalDate e d t = Some i \<longrightarrow> Date_parse e (d @ js ''T'' @ t) = Some i)"
  by (simp add: buildLocalDate_def)

theorem buildLocalDate_null_iff_witness:
  "buildLocalDate ex_env (js ''2024-06-01'') (js ''08:00'') = Some 1717254000000
   \<and> Date_parse ex_env (js ''2024-06-01T08:00'') = Some 1717254000000
   \<and> buildLocalDate ex_env (js ''2024-06-01'') [] = None
   \<and> buildLocalDate ex_env (js ''someday'') (js ''08:00'') = None"
  using buildLocalDate_null_iff [of ex_env "js ''2024-06-01''" "js ''08:00''"]
    buildLocalDate_null_iff [of ex_env "js ''2024-06-01''" "[]"]
    buildLocalDate_null_iff [of ex_env "js ''someday''" "js ''08:00''"]
  by (simp add: ex_env_def buildLocalDate_def js_def)

text \<open>
  Claim C8. With the required fields present, a depart or arrive pair that does not give
  a date does not stop \<open>onAdd\<close>: the Trip is appended, with the empty text as that pair's
  instant and the date and time texts as they were entered.
\<close>

theorem onAdd_keeps_unparsed_times:
  "requiredOK (form w) \<Longrightarrow>
   trips (onAdd e w) = trips w @ [collectTrip e (form w)]
   \<and> (buildLocalDate e (inDepartDate (form w)) (inDepartTime (form w)) = None \<longrightarrow>
        get_field ''depart'' (collectTrip e (form w))
          = Some (JObj [(js ''date'', JStr (inDepartDate (form w))),
                        (js ''time'', JStr (inDepartTime (form w))),
                        (js ''isoUtc'', JStr [])]))
   \<and> (buildLocalDate e (inArriveDate (form w)) (inArriveTime (form w)) = None \<longrightarrow>
        get_field ''arrive'' (collectTrip e (form w))
          = Some (JObj [(js ''date'', JStr (inArriveDate (form w))),
                        (js ''time'', JStr (inArriveTime (form w))),
                        (js ''isoUtc'', JStr [])]))"
  by (simp add: trips_onAdd collectTrip_def get_field_def instant_def Let_def js_def)

theorem onAdd_keeps_unparsed_times_witness:
  "trips (onAdd ex_env
      (ex_world []\<lparr>form := ex_form\<lparr>inDepartDate := js ''soon'', inArriveTime := []\<rparr>\<rparr>))
     = [JObj [
         (js ''train'', JStr (js ''14'')),
         (js ''origin'', JStr (js ''SJC'')),
         (js ''destination'', JStr (js ''SAC'')),
         (js ''depart'', JObj [(js ''date'', JStr (js ''soon'')), (js ''time'', JStr (js ''08:00'')),
                               (js ''isoUtc'', JStr [])]),
         (js ''arrive'', JObj [(js ''date'', JStr (js ''2024-06-01'')), (js ''time'', JStr []),
                               (js ''isoUtc'', JStr [])]),
         (js ''notes'', JStr (js ''window'')),
         (js ''createdAt'', JStr (js ''2024-06-01T12:00:00.000Z''))]]"
  using onAdd_keeps_unparsed_times
    [of "ex_world []\<lparr>form := ex_form\<lparr>inDepartDate := js ''soon'', inArriveTime := []\<rparr>\<rparr>" ex_env]
  by (simp add: ex_world_def ex_form_def ex_env_def collectTrip_def requiredOK_def
      buildLocalDate_def instant_def trim_def is_space_def js_def)

section \<open>Exporting a snapshot leaves the state alone\<close>

text \<open>
  Claim C10. \<open>onSave\<close> only reads the shared state: the trip list and the stored entry
  are the same after it as before, whatever the state.
\<close>

theorem onSave_read_only:
  "trips (onSave e w) = trips w \<and> storage (onSave e w) = storage w \<and> form (onSave e w) = form w"
  by (simp add: onSave_def)

section \<open>Reading back what \<open>JSON.stringify\<close> wrote\<close>

subsection \<open>String literals\<close>

lemma unit_eq_cu: "c = cu ch \<longleftrightarrow> unat c = of_char ch"
proof
  assume "unat c = of_char ch"
  then have "unat c = unat (cu ch)" by simp
  then show "c = cu ch" by (simp only: word_unat_eq_iff)
qed simp

lemma unat_of_nat16: "k < 65536 \<Longrightarrow> unat (of_nat k :: 16 word) = k"
  by (simp only: unat_of_nat) simp

lemma hex_val_hex_digit: "n < 16 \<Longrightarrow> hex_val (hex_digit n) = Some n"
proof -
  assume n: "n < 16"
  then have "unat (of_nat (48 + n) :: 16 word) = 48 + n"
    and "unat (of_nat (87 + n) :: 16 word) = 87 + n"
    by (simp_all only: unat_of_nat16)
  then show ?thesis using n
    by (auto simp del: of_nat_add simp add: hex_val_def hex_digit_def Let_def)
qed

lemma hex4_digits:
  assumes "n < 65536"
  shows "hex4 [hex_digit (n div 16 div 16 div 16), hex_digit (n div 16 div 16 mod 16),
               hex_digit (n div 16 mod 16), hex_digit (n mod 16)] = Some n"
proof -
  have "n div 16 < 4096" using assms by (intro less_mult_imp_div_less) simp
  then have "n div 16 div 16 < 256" by (intro less_mult_imp_div_less) simp
  then have "n div 16 div 16 div 16 < 16" by (intro less_mult_imp_div_less) simp
  then show ?thesis by (simp add: hex_val_hex_digit)
qed

lemma parse_chars_escape:
  "parse_chars (unicode_escape (unat c) @ s) = map_option (apfst ((#) c)) (parse_chars s)"
proof -
  have "unat c < 2 ^ LENGTH(16)" by (rule unsigned_less)
  then have "unat c < 65536" by simp
  then have "hex4 (take 4 (hex_digit (unat c div 16 div 16 div 16)
      # hex_digit (unat c div 16 div 16 mod 16) # hex_digit (unat c div 16 mod 16)
      # hex_digit (unat c mod 16) # s)) = Some (unat c)"
    using hex4_digits [of "unat c"] by simp
  then show ?thesis
    by (simp add: unicode_escape_def del: hex4.simps take_Suc_Cons)
qed

lemma parse_chars_raw:
  "32 \<le> unat c \<Longrightarrow> c \<noteq> dquote \<Longrightarrow> c \<noteq> bslash
   \<Longrightarrow> parse_chars (c # s) = map_option (apfst ((#) c)) (parse_chars s)"
  by simp

lemma parse_chars_quote_unit:
  "parse_chars (quote_unit c @ s) = map_option (apfst ((#) c)) (parse_chars s)"
proof -
  define n where "n = unat c"
  have known: "c = cu ch" if "n = of_char ch" for ch
    using that by (simp add: unit_eq_cu n_def)
  consider "n = 8" | "n = 9" | "n = 10" | "n = 12" | "n = 13" | "c = dquote" | "c = bslash"
    | "n < 32 \<or> is_lead c \<or> is_trail c" "n \<notin> {8, 9, 10, 12, 13}" "c \<noteq> dquote" "c \<noteq> bslash"
    | "\<not> (n < 32 \<or> is_lead c \<or> is_trail c)" "c \<noteq> dquote" "c \<noteq> bslash"
    by fastforce
  then show ?thesis
  proof cases
    case 1
    then have "c = cu (CHR 0x08)" by (intro known) simp
    then show ?thesis by (simp add: quote_unit_def unescape_def)
  next
    case 2
    then have "c = cu (CHR 0x09)" by (intro known) simp
    then show ?thesis by (simp add: quote_unit_def unescape_def)
  next
    case 3
    then have "c = cu (CHR 0x0A)" by (intro known) simp
    then show ?thesis by (simp add: quote_unit_def unescape_def)
  next
    case 4
    then have "c = cu (CHR 0x0C)" by (intro known) simp
    then show ?thesis by (simp add: quote_unit_def unescape_def)
  next
    case 5
    then have "c = cu (CHR 0x0D)" by (intro known) simp
    then show ?thesis by (simp add: quote_unit_def unescape_def)
  next
    case 6
    then show ?thesis by (simp add: quote_unit_def unescape_def)
  next
    case 7
    then show ?thesis by (simp add: quote_unit_def unescape_def)
  next
    case 8
    then have "quote_unit c = unicode_escape (unat c)"
      by (simp add: quote_unit_def Let_def n_def [symmetric])
    then show ?thesis by (simp add: parse_chars_escape)
  next
    case 9
    then have "quote_unit c = [c]" and "32 \<le> unat c"
      by (auto simp: quote_unit_def Let_def n_def [symmetric])
    then show ?thesis using 9 by simp
  qed
qed

lemma parse_chars_quoted:
  "parse_chars (quote_units s @ dquote # rest) = Some (s, rest)"
proof (induction s rule: quote_units.induct)
  case 1
  then show ?case by simp
next
  case (2 c)
  then show ?case using parse_chars_quote_unit [of c "dquote # rest"] by simp
next
  case (3 c d r)
  show ?case
  proof (cases "is_lead c \<and> is_trail d")
    case True
    then have "32 \<le> unat c" "c \<noteq> dquote" "c \<noteq> bslash" "32 \<le> unat d" "d \<noteq> dquote"
      "d \<noteq> bslash"
      by (auto simp: is_lead_def is_trail_def)
    then show ?thesis using 3 True by simp
  next
    case False
    then have "quote_units (c # d # r) = quote_unit c @ quote_units (d # r)" by auto
    then show ?thesis using 3(2) [OF False] by (simp add: parse_chars_quote_unit)
  qed
qed

subsection \<open>White space\<close>

lemma skip_ws_append:
  "\<forall>c \<in> set pre. is_json_ws c \<Longrightarrow> skip_ws (pre @ s) = skip_ws s"
  by (simp add: skip_ws_def)

lemma skip_ws_Cons: "\<not> is_json_ws c \<Longrightarrow> skip_ws (c # s) = c # s"
  by (simp add: skip_ws_def)

lemma skip_ws_pre_Cons:
  "\<forall>c \<in> set pre. is_json_ws c \<Longrightarrow> \<not> is_json_ws c \<Longrightarrow> skip_ws (pre @ c # s) = c # s"
  by (simp add: skip_ws_append skip_ws_Cons)

subsection \<open>Numbers\<close>

lemma unat_digit: "unat (digit n) = 48 + n mod 10"
proof -
  have "48 + n mod 10 < 65536" by simp
  then show ?thesis unfolding digit_def by (rule unat_of_nat16)
qed

lemma is_digit_digit: "is_digit (digit n)"
  by (simp add: is_digit_def unat_digit)

lemma digit_zero: "digit n = cu CHR ''0'' \<longleftrightarrow> n mod 10 = 0"
  by (simp add: unit_eq_cu unat_digit)

lemma dec_digits: "\<forall>c \<in> set (dec n). is_digit c"
  by (induction n rule: dec.induct) (subst dec.simps, simp add: is_digit_digit)

lemma dec_nonempty: "dec n \<noteq> []"
  by (subst dec.simps) simp

lemma hd_dec: "0 < n \<Longrightarrow> hd (dec n) \<noteq> cu CHR ''0''"
proof (induction n rule: dec.induct)
  case (1 n)
  show ?case
  proof (cases "n < 10")
    case True
    then have "dec n = [digit n]" by (subst dec.simps) simp
    then show ?thesis using True 1(2) by (simp add: digit_zero)
  next
    case False
    then have "dec n = dec (n div 10) @ [digit n]" by (subst dec.simps) simp
    then have "hd (dec n) = hd (dec (n div 10))" by (simp add: dec_nonempty)
    moreover have "0 < n div 10" using False by simp
    ultimately show ?thesis using 1(1) [OF False] by simp
  qed
qed

text \<open>A text after which a number literal surely ends.\<close>

lemma closes_stops:
  assumes "closes rest"
  shows "rest = [] \<or> (\<not> is_digit (hd rest) \<and> hd rest \<noteq> cu CHR ''.''
    \<and> hd rest \<noteq> cu CHR ''e'' \<and> hd rest \<noteq> cu CHR ''E'')"
  using assms by (cases rest) (auto simp: closes_def is_json_ws_def is_digit_def)

lemma takeWhile_digits:
  assumes "\<forall>c \<in> set ds. is_digit c" and "rest = [] \<or> \<not> is_digit (hd rest)"
  shows "takeWhile is_digit (ds @ rest) = ds" and "dropWhile is_digit (ds @ rest) = rest"
proof -
  have "takeWhile is_digit rest = []" and "dropWhile is_digit rest = rest"
    using assms(2) by (cases rest; simp)+
  then show "takeWhile is_digit (ds @ rest) = ds" and "dropWhile is_digit (ds @ rest) = rest"
    using assms(1) by (simp_all add: takeWhile_append2 dropWhile_append2)
qed

lemma lex_int_run:
  assumes "I \<noteq> []" and "\<forall>c \<in> set I. is_digit c" and "hd I = cu CHR ''0'' \<longrightarrow> I = [cu CHR ''0'']"
    and "rest = [] \<or> \<not> is_digit (hd rest)"
  shows "lex_int (I @ rest) = Some (I, rest)"
proof -
  obtain c t where ct: "I = c # t" using assms(1) by (cases I) auto
  have c: "is_digit c" and t: "\<forall>x \<in> set t. is_digit x" using assms(2) ct by auto
  show ?thesis
  proof (cases "c = cu CHR ''0''")
    case True
    then have "t = []" using assms(3) ct by simp
    then show ?thesis using True ct by (simp add: lex_int_def)
  next
    case False
    then show ?thesis
      using c takeWhile_digits [OF t assms(4)] by (simp add: ct lex_int_def)
  qed
qed

lemma lex_digits_run:
  assumes "ds \<noteq> []" and "\<forall>c \<in> set ds. is_digit c" and "rest = [] \<or> \<not> is_digit (hd rest)"
  shows "lex_digits p (ds @ rest) = Some (p @ ds, rest)"
  using assms(1) takeWhile_digits [OF assms(2, 3)] by (simp add: lex_digits_def)

lemma lex_number_parts:
  assumes p: "printed S I F X" and "closes rest"
  shows "lex_number (S @ I @ (if F = [] then [] else cu CHR ''.'' # F) @ X @ rest)
         = Some (S @ I @ (if F = [] then [] else cu CHR ''.'' # F) @ X, rest)"
proof -
  note stop = closes_stops [OF assms(2)]
  define P where "P = (if F = [] then [] else cu CHR ''.'' # F)"
  have S: "S = [] \<or> S = [cu CHR ''-'']" and I: "I \<noteq> []" "\<forall>c \<in> set I. is_digit c"
      "hd I = cu CHR ''0'' \<longrightarrow> I = [cu CHR ''0'']"
    and F: "\<forall>c \<in> set F. is_digit c"
    and X: "X = [] \<or> (\<exists>sg D. X = cu CHR ''e'' # sg # D \<and> (sg = cu CHR ''+'' \<or> sg = cu CHR ''-'')
                          \<and> D \<noteq> [] \<and> (\<forall>c \<in> set D. is_digit c))"
    using p by (simp_all add: printed_def)
  have l_exp: "lex_exp (X @ rest) = Some (X, rest)"
  proof (cases "X = []")
    case True
    then show ?thesis using stop by (cases rest) (auto simp: lex_exp_def)
  next
    case False
    then obtain sg D where x: "X = cu CHR ''e'' # sg # D"
      and sg: "sg = cu CHR ''+'' \<or> sg = cu CHR ''-''"
      and D: "D \<noteq> []" "\<forall>c \<in> set D. is_digit c"
      using X by auto
    have "lex_digits [cu CHR ''e'', sg] (D @ rest) = Some ([cu CHR ''e'', sg] @ D, rest)"
      using stop D by (intro lex_digits_run) auto
    then show ?thesis using sg by (auto simp: x lex_exp_def)
  qed
  have X_hd: "X @ rest = [] \<or> (\<not> is_digit (hd (X @ rest)) \<and> hd (X @ rest) \<noteq> cu CHR ''.'')"
    using stop X by (auto simp: is_digit_def)
  have l_frac: "lex_frac (P @ X @ rest) = Some (P, X @ rest)"
  proof (cases "F = []")
    case True
    then show ?thesis using X_hd by (cases "X @ rest") (auto simp: P_def lex_frac_def)
  next
    case False
    have "lex_digits [cu CHR ''.''] (F @ X @ rest) = Some ([cu CHR ''.''] @ F, X @ rest)"
      using False X_hd F by (intro lex_digits_run) auto
    then show ?thesis using False by (simp add: P_def lex_frac_def)
  qed
  have P_hd: "P @ X @ rest = [] \<or> \<not> is_digit (hd (P @ X @ rest))"
    using X_hd by (cases "F = []") (auto simp: P_def is_digit_def)
  have l_int: "lex_int (I @ P @ X @ rest) = Some (I, P @ X @ rest)"
    using I P_hd by (rule lex_int_run)
  have "hd I \<noteq> cu CHR ''-''"
    using I by (cases I) (auto simp: is_digit_def)
  then have l_sign: "lex_sign (S @ I @ P @ X @ rest) = (S, I @ P @ X @ rest)"
    using I(1) S by (cases I) (auto simp: lex_sign_def)
  show ?thesis
    unfolding P_def [symmetric] by (simp add: lex_number_def l_sign l_int l_frac l_exp)
qed

lemma shortest_zero: "shortest 0 e = (0, e)"
  by (subst shortest.simps) simp

lemma shortest_pos: "0 < s \<Longrightarrow> 0 < fst (shortest s e)"
proof (induction s e rule: shortest.induct)
  case (1 s e)
  show ?case
  proof (cases "s mod 10 = 0")
    case True
    then have "0 < s div 10" using 1(2) by auto
    moreover have "shortest s e = shortest (s div 10) (e + 1)"
      using True 1(2) by (subst shortest.simps) simp
    ultimately show ?thesis using 1(1) True 1(2) by simp
  next
    case False
    then have "shortest s e = (s, e)" by (subst shortest.simps) simp
    then show ?thesis using 1(2) by simp
  qed
qed

lemma zeros_digits: "\<forall>c \<in> set (zeros m). is_digit c"
  by (simp add: zeros_def is_digit_def)

lemma Number_toString_printed:
  "\<exists>S I F X. Number_toString (Finite neg s0 e0) = S @ I @ (if F = [] then [] else cu CHR ''.'' # F) @ X
     \<and> printed S I F X"
proof -
  obtain s e where se: "shortest s0 e0 = (s, e)" by (cases "shortest s0 e0")
  show ?thesis
  proof (cases "s = 0")
    case True
    have "Number_toString (Finite neg s0 e0) = [] @ [cu CHR ''0''] @ (if [] = ([] :: jsstring) then [] else cu CHR ''.'' # []) @ []"
      using True by (simp add: Number_toString_def se js_def)
    moreover have "printed [] [cu CHR ''0''] [] []"
      by (simp add: printed_def is_digit_def)
    ultimately show ?thesis by blast
  next
    case False
    define ds where "ds = dec s"
    define k where "k = int (length ds)"
    define n where "n = e + k"
    define S where "S = (if neg then [cu CHR ''-''] else [])"
    have ds: "ds \<noteq> []" "\<forall>c \<in> set ds. is_digit c" "hd ds \<noteq> cu CHR ''0''"
      using False dec_nonempty [of s] dec_digits [of s] hd_dec [of s] by (simp_all add: ds_def)
    have k: "1 \<le> k" using ds(1) by (cases ds) (simp_all add: k_def)
    have S: "S = [] \<or> S = [cu CHR ''-'']" by (simp add: S_def)
    have out: "Number_toString (Finite neg s0 e0) =
        S @ (if - 5 \<le> n \<and> n \<le> 21 then
               (if k \<le> n then ds @ zeros (nat (n - k))
                else if 0 < n then take (nat n) ds @ cu CHR ''.'' # drop (nat n) ds
                else js ''0.'' @ zeros (nat (- n)) @ ds)
             else take 1 ds @ (if k = 1 then [] else cu CHR ''.'' # drop 1 ds)
                  @ cu CHR ''e'' # cu (if n < 0 then CHR ''-'' else CHR ''+'')
                  # dec (nat \<bar>n - 1\<bar>))"
      using False
      by (simp add: Number_toString_def se S_def ds_def [symmetric] k_def [symmetric]
          n_def [symmetric] Let_def)
    consider (a) "- 5 \<le> n" "n \<le> 21" "k \<le> n"
      | (b) "- 5 \<le> n" "n \<le> 21" "0 < n" "n < k"
      | (c) "- 5 \<le> n" "n \<le> 0"
      | (x) "n < - 5 \<or> 21 < n"
      by linarith
    then show ?thesis
    proof cases
      case a
      let ?I = "ds @ zeros (nat (n - k))"
      have "Number_toString (Finite neg s0 e0)
          = S @ ?I @ (if [] = ([] :: jsstring) then [] else cu CHR ''.'' # []) @ []"
        using a by (simp add: out)
      moreover have "printed S ?I [] []"
        using S ds zeros_digits by (auto simp: printed_def)
      ultimately show ?thesis by blast
    next
      case b
      let ?I = "take (nat n) ds" and ?F = "drop (nat n) ds"
      have len: "nat n < length ds" "0 < nat n" using b by (simp_all add: k_def)
      have F: "?F \<noteq> []" using len by simp
      have "Number_toString (Finite neg s0 e0)
          = S @ ?I @ (if ?F = [] then [] else cu CHR ''.'' # ?F) @ []"
        using b F by (simp add: out)
      moreover have "printed S ?I ?F []"
      proof -
        have "?I \<noteq> []" using len ds(1) by simp
        moreover have "hd ?I = hd ds" using len by (simp add: hd_take)
        moreover have "\<forall>c \<in> set ?I. is_digit c" using ds(2) by (meson in_set_takeD)
        moreover have "\<forall>c \<in> set ?F. is_digit c" using ds(2) by (meson in_set_dropD)
        ultimately show ?thesis using S ds(3) by (simp add: printed_def)
      qed
      ultimately show ?thesis by blast
    next
      case c
      let ?F = "zeros (nat (- n)) @ ds"
      have F: "?F \<noteq> []" using ds(1) by simp
      have "Number_toString (Finite neg s0 e0)
          = S @ [cu CHR ''0''] @ (if ?F = [] then [] else cu CHR ''.'' # ?F) @ []"
        using c k F by (simp add: out js_def)
      moreover have "printed S [cu CHR ''0''] ?F []"
        using S ds(2) zeros_digits by (auto simp: printed_def is_digit_def)
      ultimately show ?thesis by blast
    next
      case x
      let ?I = "take 1 ds" and ?F = "drop 1 ds"
      let ?X = "cu CHR ''e'' # cu (if n < 0 then CHR ''-'' else CHR ''+'') # dec (nat \<bar>n - 1\<bar>)"
      have range: "\<not> (- 5 \<le> n \<and> n \<le> 21)" using x by linarith
      have "Number_toString (Finite neg s0 e0)
          = S @ ?I @ (if ?F = [] then [] else cu CHR ''.'' # ?F) @ ?X"
        by (subst out, subst if_not_P [OF range]) (use k in \<open>auto simp: k_def\<close>)
      moreover have "printed S ?I ?F ?X"
      proof -
        have "?I \<noteq> []" using ds(1) by simp
        moreover have "hd ?I = hd ds" by (simp add: hd_take)
        moreover have "\<forall>c \<in> set ?I. is_digit c" using ds(2) by (meson in_set_takeD)
        moreover have "\<forall>c \<in> set ?F. is_digit c" using ds(2) by (meson in_set_dropD)
        ultimately show ?thesis
          using S ds(3) dec_nonempty dec_digits by (simp add: printed_def)
      qed
      ultimately show ?thesis by blast
    qed
  qed
qed

lemma lex_number_printed:
  assumes "closes rest"
  shows "lex_number (Number_toString (Finite neg s e) @ rest)
         = Some (Number_toString (Finite neg s e), rest)"
proof -
  obtain S I F X
    where "Number_toString (Finite neg s e) = S @ I @ (if F = [] then [] else cu CHR ''.'' # F) @ X"
      and "printed S I F X"
    using Number_toString_printed by blast
  then show ?thesis using lex_number_parts [OF _ assms, of S I F X] by simp
qed

lemma Number_toString_head:
  "\<exists>c r. Number_toString (Finite neg s e) = c # r \<and> (c = cu CHR ''-'' \<or> is_digit c)"
proof -
  obtain S I F X
    where out: "Number_toString (Finite neg s e) = S @ I @ (if F = [] then [] else cu CHR ''.'' # F) @ X"
      and p: "printed S I F X"
    using Number_toString_printed by blast
  obtain d t where "I = d # t" "is_digit d"
    using p by (cases I) (auto simp: printed_def)
  then show ?thesis using p by (auto simp: out printed_def)
qed

subsection \<open>Values\<close>

lemma wrap_parts:
  "parts \<noteq> [] \<Longrightarrow>
   wrap gap ind ind' l r parts
     = l # brk gap ind' @ join (cu CHR '','' # brk gap ind') parts @ brk gap ind @ [r]"
  by (simp add: wrap_def)

lemma brk_ws:
  "\<forall>c \<in> set gap. is_json_ws c \<Longrightarrow> \<forall>c \<in> set ind. is_json_ws c
   \<Longrightarrow> \<forall>c \<in> set (brk gap ind). is_json_ws c"
  by (simp add: brk_def is_json_ws_def)

lemma join_Cons: "join sep (p # ps) = p @ (if ps = [] then [] else sep @ join sep ps)"
  by (cases ps) simp_all

lemma closes_comma: "closes (cu CHR '','' # t)"
  by (simp add: closes_def)

lemma closes_after_ws:
  assumes "\<forall>c \<in> set W. is_json_ws c" and "c = cu CHR '']'' \<or> c = cu CHR ''}''"
  shows "closes (W @ c # t)"
  using assms by (cases W) (auto simp: closes_def)

lemma number_start:
  assumes "c = cu CHR ''-'' \<or> is_digit c"
  shows "opener c" and "c \<noteq> cu CHR ''[''" and "c \<noteq> cu CHR ''{''" and "c \<noteq> dquote"
    and "c \<noteq> cu CHR ''t''" and "c \<noteq> cu CHR ''f''" and "c \<noteq> cu CHR ''n''"
  using assms by (auto simp: opener_def is_json_ws_def is_digit_def)

lemma Serialize_opener:
  "\<exists>c r. SerializeJSONProperty gap ind v = c # r \<and> opener c"
proof (cases v)
  case (JNum x)
  show ?thesis
  proof (cases x)
    case (Finite neg s e)
    then show ?thesis
      using Number_toString_head [of neg s e] number_start(1) by (auto simp: JNum)
  next
    case (Infinite neg)
    then show ?thesis by (simp add: JNum js_def opener_def is_json_ws_def)
  qed
qed (simp_all add: opener_def is_json_ws_def QuoteJSONString_def wrap_def js_def)

lemma parse_elements_join:
  assumes IH: "\<And>x n pre ind rest. x \<in> set xs \<Longrightarrow> size x < n \<Longrightarrow>
      \<forall>c \<in> set pre. is_json_ws c \<Longrightarrow> \<forall>c \<in> set ind. is_json_ws c \<Longrightarrow> closes rest \<Longrightarrow>
      parse_value num n (pre @ SerializeJSONProperty gap ind x @ rest) = Some (reread num x, rest)"
    and ne: "xs \<noteq> []"
    and fuel: "size_list size xs < n"
    and wp: "\<forall>c \<in> set pre. is_json_ws c"
    and w1: "\<forall>c \<in> set W1. is_json_ws c"
    and w2: "\<forall>c \<in> set W2. is_json_ws c"
    and wi: "\<forall>c \<in> set ind. is_json_ws c"
  shows "parse_elements num n
           (pre @ join (cu CHR '','' # W1) (map (SerializeJSONProperty gap ind) xs)
              @ W2 @ cu CHR '']'' # rest)
         = Some (map (reread num) xs, rest)"
  using IH ne fuel wp
proof (induction xs arbitrary: n pre)
  case Nil
  then show ?case by simp
next
  case (Cons x xs)
  note step = Cons.prems(1) and hyp = Cons.IH
  from Cons.prems(3) obtain m where n: "n = Suc m" and fx: "size x < m"
    and fxs: "size_list size xs < m"
    by (cases n) auto
  show ?case
  proof (cases "xs = []")
    case True
    have "closes (W2 @ cu CHR '']'' # rest)" using w2 by (intro closes_after_ws) simp_all
    then have "parse_value num m (pre @ SerializeJSONProperty gap ind x @ (W2 @ cu CHR '']'' # rest))
        = Some (reread num x, W2 @ cu CHR '']'' # rest)"
      using step [of x m pre ind] fx Cons.prems(4) wi by simp
    moreover have "skip_ws (W2 @ cu CHR '']'' # rest) = cu CHR '']'' # rest"
      using w2 by (simp add: skip_ws_pre_Cons is_json_ws_def)
    ultimately show ?thesis using True n by simp
  next
    case False
    let ?tail = "join (cu CHR '','' # W1) (map (SerializeJSONProperty gap ind) xs)
                   @ W2 @ cu CHR '']'' # rest"
    have "parse_value num m (pre @ SerializeJSONProperty gap ind x @ (cu CHR '','' # W1 @ ?tail))
        = Some (reread num x, cu CHR '','' # W1 @ ?tail)"
      using step [of x m pre ind] fx Cons.prems(4) wi closes_comma by simp
    moreover have "skip_ws (cu CHR '','' # W1 @ ?tail) = cu CHR '','' # W1 @ ?tail"
      by (simp add: skip_ws_Cons is_json_ws_def)
    moreover have "parse_elements num m (W1 @ ?tail) = Some (map (reread num) xs, rest)"
      using hyp [of m W1] step False fxs w1 by simp
    ultimately show ?thesis using False n by (simp add: join_Cons)
  qed
qed

lemma parse_members_join:
  assumes IH: "\<And>m n pre ind rest. m \<in> set ms \<Longrightarrow> size (snd m) < n \<Longrightarrow>
      \<forall>c \<in> set pre. is_json_ws c \<Longrightarrow> \<forall>c \<in> set ind. is_json_ws c \<Longrightarrow> closes rest \<Longrightarrow>
      parse_value num n (pre @ SerializeJSONProperty gap ind (snd m) @ rest)
        = Some (reread num (snd m), rest)"
    and ne: "ms \<noteq> []"
    and fuel: "size_list (size_prod (\<lambda>k. 0) size) ms < n"
    and wp: "\<forall>c \<in> set pre. is_json_ws c"
    and w1: "\<forall>c \<in> set W1. is_json_ws c"
    and w2: "\<forall>c \<in> set W2. is_json_ws c"
    and w3: "\<forall>c \<in> set W3. is_json_ws c"
    and wi: "\<forall>c \<in> set ind. is_json_ws c"
  shows "parse_members num n
           (pre @ join (cu CHR '','' # W1)
                    (map (\<lambda>m. QuoteJSONString (fst m) @ cu CHR '':'' # W3
                                @ SerializeJSONProperty gap ind (snd m)) ms)
              @ W2 @ cu CHR ''}'' # rest)
         = Some (map (\<lambda>m. (fst m, reread num (snd m))) ms, rest)"
  using IH ne fuel wp
proof (induction ms arbitrary: n pre)
  case Nil
  then show ?case by simp
next
  case (Cons kv ms)
  note step = Cons.prems(1) and hyp = Cons.IH
  obtain k v where kv: "kv = (k, v)" by (cases kv)
  from Cons.prems(3) obtain m where n: "n = Suc m" and fv: "size v < m"
    and fms: "size_list (size_prod (\<lambda>k. 0) size) ms < m"
    by (cases n) (auto simp: kv)
  have key: "\<And>t. skip_ws (pre @ QuoteJSONString k @ t) = dquote # quote_units k @ dquote # t"
    using Cons.prems(4)
    by (simp add: QuoteJSONString_def skip_ws_pre_Cons is_json_ws_def)
  have colon: "\<And>t. skip_ws (cu CHR '':'' # t) = cu CHR '':'' # t"
    by (simp add: skip_ws_Cons is_json_ws_def)
  have val: "\<And>t. closes t \<Longrightarrow>
      parse_value num m (W3 @ SerializeJSONProperty gap ind v @ t) = Some (reread num v, t)"
    using step [of kv m W3 ind] fv w3 wi by (simp add: kv)
  show ?case
  proof (cases "ms = []")
    case True
    have "skip_ws (W2 @ cu CHR ''}'' # rest) = cu CHR ''}'' # rest"
      using w2 by (simp add: skip_ws_pre_Cons is_json_ws_def)
    moreover have "closes (W2 @ cu CHR ''}'' # rest)"
      using w2 by (intro closes_after_ws) simp_all
    ultimately show ?thesis
      using True n by (simp add: kv key parse_chars_quoted colon val)
  next
    case False
    let ?tail = "join (cu CHR '','' # W1)
                   (map (\<lambda>m. QuoteJSONString (fst m) @ cu CHR '':'' # W3
                               @ SerializeJSONProperty gap ind (snd m)) ms)
                   @ W2 @ cu CHR ''}'' # rest"
    have "skip_ws (cu CHR '','' # W1 @ ?tail) = cu CHR '','' # W1 @ ?tail"
      by (simp add: skip_ws_Cons is_json_ws_def)
    moreover have "parse_members num m (W1 @ ?tail)
        = Some (map (\<lambda>m. (fst m, reread num (snd m))) ms, rest)"
      using hyp [of m W1] step False fms w1 by simp
    ultimately show ?thesis
      using False n closes_comma
      by (simp add: kv key parse_chars_quoted colon val join_Cons)
  qed
qed

text \<open>
  The text written for a value, between white space and a text that closes it, is read as
  the value \<open>reread\<close> names, whatever the gap and the indentation.
\<close>

lemma parse_value_serialized:
  assumes g: "\<forall>c \<in> set gap. is_json_ws c"
  shows "size v < n \<Longrightarrow> \<forall>c \<in> set pre. is_json_ws c \<Longrightarrow> \<forall>c \<in> set ind. is_json_ws c
    \<Longrightarrow> closes rest
    \<Longrightarrow> parse_value num n (pre @ SerializeJSONProperty gap ind v @ rest)
        = Some (reread num v, rest)"
proof (induction v arbitrary: n pre ind rest)
  case JNull
  then obtain m where "n = Suc m" by (cases n) auto
  then show ?case
    using JNull.prems(2) by (simp add: skip_ws_pre_Cons is_json_ws_def js_def)
next
  case (JBool b)
  then obtain m where "n = Suc m" by (cases n) auto
  then show ?case
    using JBool.prems(2) by (simp add: skip_ws_pre_Cons is_json_ws_def js_def)
next
  case (JNum x)
  then obtain m where n: "n = Suc m" by (cases n) auto
  show ?case
  proof (cases x)
    case (Infinite neg)
    then show ?thesis
      using n JNum.prems(2) by (simp add: skip_ws_pre_Cons is_json_ws_def js_def)
  next
    case (Finite neg s e)
    obtain c r where cr: "Number_toString x = c # r" and c: "c = cu CHR ''-'' \<or> is_digit c"
      using Number_toString_head [of neg s e] Finite by auto
    note st = number_start [OF c]
    have skip: "skip_ws (pre @ c # r @ rest) = c # r @ rest"
      using JNum.prems(2) st(1) by (simp add: skip_ws_pre_Cons opener_def)
    have "lex_number (c # r @ rest) = Some (c # r, rest)"
      using lex_number_printed [OF JNum.prems(4), of neg s e] Finite cr by simp
    then show ?thesis
      using n st by (simp add: Finite cr [unfolded Finite] skip js_def)
  qed
next
  case (JStr s)
  then obtain m where "n = Suc m" by (cases n) auto
  then show ?case
    using JStr.prems(2)
    by (simp add: QuoteJSONString_def skip_ws_pre_Cons is_json_ws_def parse_chars_quoted)
next
  case (JArr xs)
  from JArr.prems(1) obtain m where n: "n = Suc m" and fuel: "size_list size xs < m"
    by (cases n) auto
  have open_ws: "\<And>t. skip_ws (pre @ cu CHR ''['' # t) = cu CHR ''['' # t"
    using JArr.prems(2) by (simp add: skip_ws_pre_Cons is_json_ws_def)
  show ?case
  proof (cases "xs = []")
    case True
    have "skip_ws (cu CHR '']'' # rest) = cu CHR '']'' # rest"
      by (simp add: skip_ws_Cons is_json_ws_def)
    then show ?thesis using True n by (simp add: wrap_def open_ws)
  next
    case False
    let ?ind = "ind @ gap"
    let ?body = "join (cu CHR '','' # brk gap ?ind) (map (SerializeJSONProperty gap ?ind) xs)
                   @ brk gap ind @ cu CHR '']'' # rest"
    have wi: "\<forall>c \<in> set ?ind. is_json_ws c" using g JArr.prems(3) by auto
    have w1: "\<forall>c \<in> set (brk gap ?ind). is_json_ws c" by (rule brk_ws [OF g wi])
    have w2: "\<forall>c \<in> set (brk gap ind). is_json_ws c" by (rule brk_ws [OF g JArr.prems(3)])
    obtain x xs' where xs: "xs = x # xs'" using False by (cases xs) auto
    obtain c r where hd: "SerializeJSONProperty gap ?ind x = c # r" and op: "opener c"
      using Serialize_opener by blast
    have body: "\<exists>r'. ?body = c # r'" by (simp add: xs join_Cons hd)
    then obtain r' where r': "?body = c # r'" ..
    have skip: "skip_ws (brk gap ?ind @ ?body) = c # r'"
      unfolding r' using w1 op by (simp add: skip_ws_pre_Cons opener_def)
    have "parse_elements num m ([] @ ?body) = Some (map (reread num) xs, rest)"
    proof (rule parse_elements_join [OF _ False fuel _ w1 w2 wi])
      fix y k p i t
      assume "y \<in> set xs" "size y < k" "\<forall>c \<in> set p. is_json_ws c" "\<forall>c \<in> set i. is_json_ws c"
        "closes t"
      then show "parse_value num k (p @ SerializeJSONProperty gap i y @ t)
          = Some (reread num y, t)"
        using JArr.IH [of y k p i t] by simp
    qed simp
    then have elems: "parse_elements num m (c # r') = Some (map (reread num) xs, rest)"
      unfolding append_Nil r' .
    have "SerializeJSONProperty gap ind (JArr xs) @ rest = cu CHR ''['' # brk gap ?ind @ ?body"
      using False by (simp add: wrap_parts)
    then show ?thesis
      using n op by (simp add: open_ws skip elems opener_def)
  qed
next
  case (JObj ms)
  from JObj.prems(1) obtain m where n: "n = Suc m"
    and fuel: "size_list (size_prod (\<lambda>k. 0) size) ms < m"
    by (cases n) auto
  have open_ws: "\<And>t. skip_ws (pre @ cu CHR ''{'' # t) = cu CHR ''{'' # t"
    using JObj.prems(2) by (simp add: skip_ws_pre_Cons is_json_ws_def)
  show ?case
  proof (cases "ms = []")
    case True
    have "skip_ws (cu CHR ''}'' # rest) = cu CHR ''}'' # rest"
      by (simp add: skip_ws_Cons is_json_ws_def)
    then show ?thesis using True n by (simp add: wrap_def open_ws)
  next
    case False
    let ?ind = "ind @ gap"
    define sp where "sp = (if gap = [] then [] else [cu CHR '' ''])"
    let ?body = "join (cu CHR '','' # brk gap ?ind)
                   (map (\<lambda>m. QuoteJSONString (fst m) @ cu CHR '':'' # sp
                               @ SerializeJSONProperty gap ?ind (snd m)) ms)
                   @ brk gap ind @ cu CHR ''}'' # rest"
    have wi: "\<forall>c \<in> set ?ind. is_json_ws c" using g JObj.prems(3) by auto
    have w1: "\<forall>c \<in> set (brk gap ?ind). is_json_ws c" by (rule brk_ws [OF g wi])
    have w2: "\<forall>c \<in> set (brk gap ind). is_json_ws c" by (rule brk_ws [OF g JObj.prems(3)])
    have w3: "\<forall>c \<in> set sp. is_json_ws c" by (simp add: sp_def is_json_ws_def)
    obtain kv ms' where ms: "ms = kv # ms'" using False by (cases ms) auto
    have body: "\<exists>r'. ?body = dquote # r'"
      by (simp add: ms join_Cons QuoteJSONString_def)
    then obtain r' where r': "?body = dquote # r'" ..
    have skip: "skip_ws (brk gap ?ind @ ?body) = dquote # r'"
      unfolding r' using w1 by (simp add: skip_ws_pre_Cons is_json_ws_def)
    have "parse_members num m ([] @ ?body)
        = Some (map (\<lambda>m. (fst m, reread num (snd m))) ms, rest)"
    proof (rule parse_members_join [OF _ False fuel _ w1 w2 w3 wi])
      fix y k p i t
      assume "y \<in> set ms" "size (snd y) < k" "\<forall>c \<in> set p. is_json_ws c"
        "\<forall>c \<in> set i. is_json_ws c" "closes t"
      moreover have "snd y \<in> Basic_BNFs.snds y" by (cases y) simp
      ultimately show "parse_value num k (p @ SerializeJSONProperty gap i (snd y) @ t)
          = Some (reread num (snd y), t)"
        using JObj.IH [of y "snd y" k p i t] by simp
    qed simp
    then have members: "parse_members num m (dquote # r')
        = Some (map (\<lambda>m. (fst m, reread num (snd m))) ms, rest)"
      unfolding append_Nil r' .
    have "SerializeJSONProperty gap ind (JObj ms) @ rest = cu CHR ''{'' # brk gap ?ind @ ?body"
      using False by (simp add: wrap_parts sp_def)
    then show ?thesis
      using n by (simp add: open_ws skip members)
  qed
qed

subsection \<open>A value is no larger than its text is long\<close>

lemma length_join_ge:
  "sep \<noteq> [] \<Longrightarrow> parts \<noteq> []
   \<Longrightarrow> length parts + sum_list (map length parts) \<le> Suc (length (join sep parts))"
proof (induction sep parts rule: join.induct)
  case (3 sep x y ys)
  have "1 \<le> length sep" using 3 by (cases sep) simp_all
  then show ?case using 3 by simp
qed simp_all

lemma length_wrap_ge:
  "length parts + sum_list (map length parts) < length (wrap gap ind ind' l r parts)"
proof (cases "parts = []")
  case True
  then show ?thesis by (simp add: wrap_def)
next
  case False
  have "length parts + sum_list (map length parts)
      \<le> Suc (length (join (cu CHR '','' # brk gap ind') parts))"
    using False by (intro length_join_ge) simp_all
  then show ?thesis using False by (simp add: wrap_parts)
qed

lemma size_list_le:
  "(\<And>x. x \<in> set xs \<Longrightarrow> f x \<le> g x) \<Longrightarrow> size_list f xs \<le> length xs + sum_list (map g xs)"
proof (induction xs)
  case (Cons x xs)
  have "f x \<le> g x" using Cons.prems by simp
  moreover have "size_list f xs \<le> length xs + sum_list (map g xs)"
    using Cons by simp
  ultimately show ?case by simp
qed simp

lemma size_le_length_serialized: "size v \<le> length (SerializeJSONProperty gap ind v)"
proof (induction v arbitrary: ind)
  case (JArr xs)
  let ?part = "SerializeJSONProperty gap (ind @ gap)"
  have "size_list size xs \<le> length xs + sum_list (map (\<lambda>x. length (?part x)) xs)"
    using JArr.IH by (intro size_list_le) simp
  also have "\<dots> = length (map ?part xs) + sum_list (map length (map ?part xs))"
    by (simp add: comp_def)
  also have "\<dots> < length (wrap gap ind (ind @ gap) (cu CHR ''['') (cu CHR '']'') (map ?part xs))"
    by (rule length_wrap_ge)
  finally show ?case by simp
next
  case (JObj ms)
  let ?part = "\<lambda>m. QuoteJSONString (fst m) @ cu CHR '':'' # (if gap = [] then [] else [cu CHR '' ''])
                    @ SerializeJSONProperty gap (ind @ gap) (snd m)"
  have "size_list (size_prod (\<lambda>k. 0) size) ms
      \<le> length ms + sum_list (map (\<lambda>m. length (?part m)) ms)"
  proof (intro size_list_le)
    fix m assume "m \<in> set ms"
    moreover have "snd m \<in> Basic_BNFs.snds m" by (cases m) simp
    ultimately have "size (snd m) \<le> length (SerializeJSONProperty gap (ind @ gap) (snd m))"
      using JObj.IH [of m "snd m"] by simp
    then show "size_prod (\<lambda>k. 0) size m \<le> length (?part m)"
      by (cases m) (simp add: QuoteJSONString_def)
  qed
  also have "\<dots> = length (map ?part ms) + sum_list (map length (map ?part ms))"
    by (simp add: comp_def)
  also have "\<dots> < length (wrap gap ind (ind @ gap) (cu CHR ''{'') (cu CHR ''}'') (map ?part ms))"
    by (rule length_wrap_ge)
  finally show ?case by simp
qed simp_all

text \<open>So the fuel \<open>JSON.parse\<close> starts with is enough for every text \<open>JSON.stringify\<close> writes.\<close>

lemma JSON_parse_serialized:
  assumes "\<forall>c \<in> set gap. is_json_ws c"
  shows "JSON_parse num (SerializeJSONProperty gap [] v) = Some (reread num v)"
proof -
  let ?s = "SerializeJSONProperty gap [] v"
  have "size v < Suc (length ?s)"
    using size_le_length_serialized [of v gap "[]"] by simp
  then have "parse_value num (Suc (length ?s)) ([] @ ?s @ []) = Some (reread num v, [])"
    using assms by (intro parse_value_serialized) (simp_all add: closes_def)
  then show ?thesis by (simp add: JSON_parse_def skip_ws_def)
qed

lemma JSON_parse_stringify: "JSON_parse num (JSON_stringify v) = Some (reread num v)"
  unfolding JSON_stringify_def by (rule JSON_parse_serialized) simp

lemma JSON_parse_stringify_2: "JSON_parse num (JSON_stringify_2 v) = Some (reread num v)"
  unfolding JSON_stringify_2_def by (rule JSON_parse_serialized) (simp add: is_json_ws_def js_def)

subsection \<open>Values that are read back as they were written\<close>

lemma foldl_CreateDataProperty:
  "distinct (map fst (acc @ ms)) \<Longrightarrow> \<forall>m \<in> set ms. \<not> is_index_key (fst m)
   \<Longrightarrow> foldl CreateDataProperty acc ms = acc @ ms"
proof (induction ms arbitrary: acc)
  case Nil
  then show ?case by simp
next
  case (Cons m ms)
  have app: "insert_key (fst m) (snd m) acc = acc @ [m]" for acc
    using Cons.prems(2) by (induction acc) (simp_all add: key_before_def)
  have "fst m \<notin> fst ` set acc" using Cons.prems(1) by auto
  then have "CreateDataProperty acc m = acc @ [m]"
    by (simp add: CreateDataProperty_def app)
  then show ?case using Cons.IH [of "acc @ [m]"] Cons.prems by simp
qed

lemma reread_plain: "plain v \<Longrightarrow> reread num v = v"
proof (induction v)
  case (JArr xs)
  then show ?case by (simp add: map_idI)
next
  case (JObj ms)
  have "map (\<lambda>m. (fst m, reread num (snd m))) ms = ms"
  proof (rule map_idI)
    fix m assume m: "m \<in> set ms"
    moreover have "snd m \<in> Basic_BNFs.snds m" by (cases m) simp
    moreover have "plain (snd m)" using JObj.prems m by simp
    ultimately have "reread num (snd m) = snd m" using JObj.IH [of m "snd m"] by simp
    then show "(fst m, reread num (snd m)) = m" by simp
  qed
  moreover have "foldl CreateDataProperty [] ms = [] @ ms"
    using JObj.prems by (intro foldl_CreateDataProperty) simp_all
  ultimately show ?case by simp
qed simp_all

lemma plain_is_string: "is_string v \<Longrightarrow> plain v"
  by (cases v) (simp_all add: is_string_def)

lemma index_key_digits: "is_index_key k \<Longrightarrow> is_digit (hd k)"
  by (cases k) (simp_all add: is_index_key_def)

lemma plain_object:
  assumes keys: "distinct (map fst ms)" "\<forall>k \<in> set (map fst ms). \<not> is_digit (hd k)"
    and vals: "\<forall>v \<in> set (map snd ms). plain v"
  shows "plain (JObj ms)"
  using assms index_key_digits by auto

lemma plain_is_timepoint: "is_timepoint v \<Longrightarrow> plain v"
proof (cases v)
  case (JObj ms)
  assume "is_timepoint v"
  then have k: "map fst ms = map js [''date'', ''time'', ''isoUtc'']"
    and s: "list_all is_string (map snd ms)"
    by (simp_all add: is_timepoint_def JObj)
  have "plain (JObj ms)"
  proof (rule plain_object)
    show "distinct (map fst ms)" by (simp add: k js_def)
    show "\<forall>k \<in> set (map fst ms). \<not> is_digit (hd k)" by (simp add: k is_digit_def js_def)
    show "\<forall>v \<in> set (map snd ms). plain v"
      using s plain_is_string by (auto simp: list_all_iff)
  qed
  then show ?thesis by (simp add: JObj)
qed (simp_all add: is_timepoint_def)

lemma plain_is_trip: "is_trip v \<Longrightarrow> plain v"
proof (cases v)
  case (JObj ms)
  assume "is_trip v"
  then have k: "map fst ms = map js [''train'', ''origin'', ''destination'', ''depart'', ''arrive'',
      ''notes'', ''createdAt'']"
    and s: "list_all2 (\<lambda>p x. p x)
      [is_string, is_string, is_string, is_timepoint, is_timepoint, is_string, is_string]
      (map snd ms)"
    by (simp_all add: is_trip_def JObj)
  have "plain (JObj ms)"
  proof (rule plain_object)
    show "distinct (map fst ms)" by (simp add: k js_def)
    show "\<forall>k \<in> set (map fst ms). \<not> is_digit (hd k)" by (simp add: k is_digit_def js_def)
    show "\<forall>v \<in> set (map snd ms). plain v"
    proof
      fix x assume "x \<in> set (map snd ms)"
      then obtain i where i: "i < length (map snd ms)" and x: "x = map snd ms ! i"
        by (auto simp: in_set_conv_nth)
      let ?ps = "[is_string, is_string, is_string, is_timepoint, is_timepoint, is_string,
        is_string]"
      from s i have "(?ps ! i) x" and "i < length ?ps"
        by (auto simp: list_all2_conv_all_nth x)
      then have "?ps ! i \<in> set ?ps" by (intro nth_mem)
      then have "?ps ! i = is_string \<or> ?ps ! i = is_timepoint" by auto
      then show "plain x"
        using \<open>(?ps ! i) x\<close> plain_is_string plain_is_timepoint by auto
    qed
  qed
  then show ?thesis by (simp add: JObj)
qed (simp_all add: is_trip_def)

lemma is_trip_collectTrip: "is_trip (collectTrip e f)"
  by (simp add: is_trip_def collectTrip_def is_timepoint_def is_string_def Let_def)

subsection \<open>The parser never runs out of fuel\<close>

lemma skip_ws_length: "skip_ws s = c # t \<Longrightarrow> length t < length s"
proof -
  assume "skip_ws s = c # t"
  then have "length (c # t) \<le> length s"
    using length_dropWhile_le [of is_json_ws s] by (simp add: skip_ws_def)
  then show ?thesis by simp
qed

lemma parse_chars_length: "parse_chars s = Some (k, r) \<Longrightarrow> length r < length s"
proof (induction s arbitrary: k r rule: parse_chars.induct)
  case 1
  then show ?case by simp
next
  case (2 c t)
  show ?case
  proof (cases "c = dquote")
    case True
    then show ?thesis using 2 by simp
  next
    case False
    show ?thesis
    proof (cases "c = bslash")
      case True
      with False 2 show ?thesis
        by (fastforce split: list.splits option.splits if_splits)
    next
      case nb: False
      with False 2 show ?thesis
        by (fastforce split: if_splits)
    qed
  qed
qed

lemma lex_digits_length: "lex_digits p s = Some (l, r) \<Longrightarrow> length r \<le> length s"
  using length_dropWhile_le [of is_digit s]
  by (auto simp: lex_digits_def split: if_splits)

lemma lex_number_length: "lex_number s = Some (l, r) \<Longrightarrow> length r < length s"
proof -
  assume a: "lex_number s = Some (l, r)"
  obtain sg r0 where sg: "lex_sign s = (sg, r0)" by (cases "lex_sign s")
  from a sg obtain i r1 where i: "lex_int r0 = Some (i, r1)"
    by (auto simp: lex_number_def split: option.splits)
  from a sg i obtain f r2 where f: "lex_frac r1 = Some (f, r2)"
    by (auto simp: lex_number_def split: option.splits)
  from a sg i f obtain x where x: "lex_exp r2 = Some (x, r)"
    by (auto simp: lex_number_def split: option.splits)
  have "length r0 \<le> length s"
    using sg by (auto simp: lex_sign_def split: list.splits if_splits)
  moreover have "length r1 < length r0"
    using i length_dropWhile_le [of is_digit "tl r0"]
    by (auto simp: lex_int_def split: list.splits if_splits)
  moreover have "length r2 \<le> length r1"
    using f by (auto simp: lex_frac_def split: list.splits if_splits dest: lex_digits_length)
  moreover have "length r \<le> length r2"
    using x by (auto simp: lex_exp_def split: list.splits if_splits dest: lex_digits_length)
  ultimately show ?thesis by simp
qed

lemma parse_consumes:
  "parse_value num n s = Some (v, r) \<Longrightarrow> length r < length s"
  "parse_elements num n s = Some (vs, r) \<Longrightarrow> length r < length s"
  "parse_members num n s = Some (ms, r) \<Longrightarrow> length r < length s"
proof (induction num n s and num n s and num n s arbitrary: v r and vs r and ms r
    rule: parse_value_parse_elements_parse_members.induct)
  case (2 num n s)
  from 2(3) obtain c t where sk: "skip_ws s = c # t" by (auto split: list.splits)
  note lt = skip_ws_length [OF sk]
  show ?case
  proof (cases "c = cu CHR ''['' \<or> c = cu CHR ''{''")
    case True
    from 2(3) sk True obtain c' t' where sk2: "skip_ws t = c' # t'"
      by (auto split: list.splits)
    note lt2 = skip_ws_length [OF sk2]
    show ?thesis
      using 2(1) [OF sk _ sk2] 2(2) [OF sk _ _ sk2] 2(3) sk sk2 lt lt2 True
      by (fastforce split: if_splits)
  next
    case False
    have "length (drop 3 t) \<le> length t" and "length (drop 4 t) \<le> length t" by simp_all
    then show ?thesis
      using 2(3) sk lt False parse_chars_length [of t] lex_number_length [of "c # t"]
      by (fastforce split: if_splits)
  qed
next
  case (4 num n s)
  from 4(3) obtain x y where pv: "parse_value num n s = Some (x, y)"
    by (auto split: option.splits)
  from 4(3) pv obtain c t where sk: "skip_ws y = c # t" by (auto split: list.splits)
  show ?case
    using 4(1) [OF pv] 4(2) [OF pv refl sk] 4(3) pv sk skip_ws_length [OF sk]
    by (fastforce split: if_splits)
next
  case (6 num n s)
  from 6(3) obtain c t where sk: "skip_ws s = c # t" by (auto split: list.splits)
  from 6(3) sk have c: "c = dquote" by (auto split: if_splits)
  from 6(3) sk c obtain k r1 where pc: "parse_chars t = Some (k, r1)"
    by (auto split: option.splits)
  from 6(3) sk c pc obtain c1 t1 where sk1: "skip_ws r1 = c1 # t1"
    by (auto split: list.splits)
  from 6(3) sk c pc sk1 have c1: "c1 = cu CHR '':''" by (auto split: if_splits)
  from 6(3) sk c pc sk1 c1 obtain x y where pv: "parse_value num n t1 = Some (x, y)"
    by (auto split: option.splits)
  from 6(3) sk c pc sk1 c1 pv obtain c3 t3 where sk3: "skip_ws y = c3 # t3"
    by (auto split: list.splits)
  have "length y < length s"
    using 6(1) [OF sk _ pc refl sk1 _ pv] c c1 skip_ws_length [OF sk] skip_ws_length [OF sk1]
      parse_chars_length [OF pc]
    by simp
  then show ?case
    using 6(2) [OF sk _ pc refl sk1 _ pv refl sk3] 6(3) sk c pc sk1 c1 pv sk3
      skip_ws_length [OF sk3]
    by (fastforce split: if_splits)
qed simp_all

text \<open>
  A parse that succeeds with some fuel succeeds with any fuel that is at least the number
  of characters it consumed.
\<close>

lemma parse_fuel:
  "parse_value num n s = Some (v, r) \<Longrightarrow> length s \<le> k + length r
     \<Longrightarrow> parse_value num k s = Some (v, r)"
  "parse_elements num n s = Some (vs, r) \<Longrightarrow> length s \<le> k + length r
     \<Longrightarrow> parse_elements num k s = Some (vs, r)"
  "parse_members num n s = Some (ms, r) \<Longrightarrow> length s \<le> k + length r
     \<Longrightarrow> parse_members num k s = Some (ms, r)"
proof (induction num n s and num n s and num n s arbitrary: v r k and vs r k and ms r k
    rule: parse_value_parse_elements_parse_members.induct)
  case (2 num n s)
  from parse_consumes(1) [OF 2(3)] 2(4) obtain k' where k: "k = Suc k'"
    by (cases k) auto
  from 2(3) obtain c t where sk: "skip_ws s = c # t" by (auto split: list.splits)
  note lt = skip_ws_length [OF sk]
  show ?case
  proof (cases "c = cu CHR ''[''")
    case True
    from 2(3) sk True obtain c' t' where sk2: "skip_ws t = c' # t'"
      by (auto split: list.splits)
    note lt2 = skip_ws_length [OF sk2]
    show ?thesis
    proof (cases "c' = cu CHR '']''")
      case True
      then show ?thesis using 2(3) sk sk2 \<open>c = cu CHR ''[''\<close> k by simp
    next
      case False
      from 2(3) sk sk2 True False obtain xs where
        pe: "parse_elements num n (c' # t') = Some (xs, r)" and v: "v = JArr xs"
        by auto
      have "length (c' # t') \<le> k' + length r" using lt lt2 2(4) k by simp
      then have "parse_elements num k' (c' # t') = Some (xs, r)"
        using 2(1) [OF sk True sk2 False pe] by simp
      then show ?thesis using sk sk2 True False k v by simp
    qed
  next
    case nA: False
    show ?thesis
    proof (cases "c = cu CHR ''{''")
      case True
      from 2(3) sk nA True obtain c' t' where sk2: "skip_ws t = c' # t'"
        by (auto split: list.splits)
      note lt2 = skip_ws_length [OF sk2]
      show ?thesis
      proof (cases "c' = cu CHR ''}''")
        case True
        then show ?thesis using 2(3) sk sk2 nA \<open>c = cu CHR ''{''\<close> k by simp
      next
        case False
        from 2(3) sk sk2 nA True False obtain ys where
          pm: "parse_members num n (c' # t') = Some (ys, r)"
          and v: "v = JObj (foldl CreateDataProperty [] ys)"
          by auto
        have "length (c' # t') \<le> k' + length r" using lt lt2 2(4) k by simp
        then have "parse_members num k' (c' # t') = Some (ys, r)"
          using 2(2) [OF sk nA True sk2 False pm] by simp
        then show ?thesis using sk sk2 nA True False k v by simp
      qed
    next
      case False
      then show ?thesis using 2(3) sk nA k by simp
    qed
  qed
next
  case (4 num n s)
  from parse_consumes(2) [OF 4(3)] 4(4) obtain k' where k: "k = Suc k'"
    by (cases k) auto
  from 4(3) obtain x y where pv: "parse_value num n s = Some (x, y)"
    by (auto split: option.splits)
  from 4(3) pv obtain c t where sk: "skip_ws y = c # t" by (auto split: list.splits)
  note lt = skip_ws_length [OF sk]
  have r_le: "length r \<le> length t"
  proof (cases "c = cu CHR '',''")
    case True
    with 4(3) pv sk obtain zs where "parse_elements num n t = Some (zs, r)" by auto
    then show ?thesis using parse_consumes(2) by fastforce
  next
    case False
    with 4(3) pv sk show ?thesis by (auto split: if_splits)
  qed
  have "length s \<le> k' + length y" using 4(4) k lt r_le by simp
  then have pv': "parse_value num k' s = Some (x, y)" using 4(1) [OF pv] by simp
  show ?case
  proof (cases "c = cu CHR '',''")
    case True
    with 4(3) pv sk obtain zs where pe: "parse_elements num n t = Some (zs, r)"
      and vs: "vs = x # zs" by auto
    have "length t \<le> k' + length r"
      using 4(4) k lt parse_consumes(1) [OF pv] by simp
    then have "parse_elements num k' t = Some (zs, r)"
      using 4(2) [OF pv refl sk True pe] by simp
    then show ?thesis using pv' sk True k vs by simp
  next
    case False
    with 4(3) pv sk pv' k show ?thesis by (auto split: if_splits)
  qed
next
  case (6 num n s)
  from parse_consumes(3) [OF 6(3)] 6(4) obtain k' where k: "k = Suc k'"
    by (cases k) auto
  from 6(3) obtain c t where sk: "skip_ws s = c # t" by (auto split: list.splits)
  from 6(3) sk have c: "\<not> c \<noteq> dquote" by (auto split: if_splits)
  from 6(3) sk c obtain key r1 where pc: "parse_chars t = Some (key, r1)"
    by (auto split: option.splits)
  from 6(3) sk c pc obtain c1 t1 where sk1: "skip_ws r1 = c1 # t1"
    by (auto split: list.splits)
  from 6(3) sk c pc sk1 have c1: "\<not> c1 \<noteq> cu CHR '':''" by (auto split: if_splits)
  from 6(3) sk c pc sk1 c1 obtain x y where pv: "parse_value num n t1 = Some (x, y)"
    by (auto split: option.splits)
  from 6(3) sk c pc sk1 c1 pv obtain c3 t3 where sk3: "skip_ws y = c3 # t3"
    by (auto split: list.splits)
  note lt = skip_ws_length [OF sk] skip_ws_length [OF sk1] skip_ws_length [OF sk3]
    parse_chars_length [OF pc] parse_consumes(1) [OF pv]
  have r_le: "length r \<le> length t3"
  proof (cases "c3 = cu CHR '',''")
    case True
    with 6(3) sk c pc sk1 c1 pv sk3 obtain zs where "parse_members num n t3 = Some (zs, r)"
      by auto
    then show ?thesis using parse_consumes(3) by fastforce
  next
    case False
    with 6(3) sk c pc sk1 c1 pv sk3 show ?thesis by (auto split: if_splits)
  qed
  have "length t1 \<le> k' + length y" using 6(4) k lt r_le by simp
  then have pv': "parse_value num k' t1 = Some (x, y)"
    using 6(1) [OF sk c pc refl sk1 c1 pv] by simp
  show ?case
  proof (cases "c3 = cu CHR '',''")
    case True
    with 6(3) sk c pc sk1 c1 pv sk3 obtain zs where
      pm: "parse_members num n t3 = Some (zs, r)" and ms: "ms = (key, x) # zs"
      by auto
    have "length t3 \<le> k' + length r" using 6(4) k lt by simp
    then have "parse_members num k' t3 = Some (zs, r)"
      using 6(2) [OF sk c pc refl sk1 c1 pv refl sk3 True pm] by simp
    then show ?thesis using sk c pc sk1 c1 pv' sk3 True k ms by simp
  next
    case False
    with 6(3) sk c pc sk1 c1 pv sk3 pv' k show ?thesis by (auto split: if_splits)
  qed
qed simp_all

text \<open>
  So the result of \<open>JSON.parse\<close> does not depend on the fuel, once it exceeds the length of
  the text: a text is refused for its syntax, never for want of fuel.
\<close>

lemma parse_value_any_fuel:
  assumes "length s < n" and "length s < m"
  shows "parse_value num n s = parse_value num m s"
proof (cases "parse_value num n s")
  case None
  show ?thesis
  proof (cases "parse_value num m s")
    case (Some p)
    obtain v r where "p = (v, r)" by (cases p)
    then have "parse_value num n s = Some (v, r)"
      using parse_fuel(1) [of num m s v r n] Some assms by simp
    then show ?thesis using None by simp
  qed (simp add: None)
next
  case (Some p)
  obtain v r where "p = (v, r)" by (cases p)
  then have "parse_value num m s = Some (v, r)"
    using parse_fuel(1) [of num n s v r m] Some assms by simp
  then show ?thesis using Some \<open>p = (v, r)\<close> by simp
qed

lemma JSON_parse_any_fuel:
  "length s < n \<Longrightarrow>
   JSON_parse num s = (case parse_value num n s of
                     None \<Rightarrow> None
                   | Some (v, r) \<Rightarrow> if skip_ws r = [] then Some v else None)"
  unfolding JSON_parse_def using parse_value_any_fuel [of s "Suc (length s)" n] by simp

section \<open>Saving and loading\<close>

lemma JSON_stringify_array_nonempty: "JSON_stringify (JArr xs) \<noteq> []"
  by (simp add: JSON_stringify_def wrap_def)

lemma JSON_parse_Nil: "JSON_parse num [] = None"
  by (simp add: JSON_parse_def skip_ws_def)

lemma plain_trips: "list_all is_trip xs \<Longrightarrow> plain (JArr xs)"
  by (auto simp: list_all_iff plain_is_trip)

text \<open>What a load finds after a save that the store took: each value as it is read back.\<close>

lemma loadState_stored_array:
  assumes "\<not> getItem_throws e" and "storage w = Some (JSON_stringify (JArr xs))"
  shows "loadState e w = w\<lparr>trips := map (reread (Number_read e)) xs\<rparr>"
  using assms
  by (simp add: loadState_def JSON_stringify_array_nonempty JSON_parse_stringify)

text \<open>
  Claim C5. For a list of Trips (values of the shape \<open>collectTrip\<close> builds), when the
  store takes the write and gives it back, \<open>loadState\<close> after \<open>saveState\<close> puts the same
  list, field for field, in place of whatever the memory held.
\<close>

theorem save_then_load:
  "list_all is_trip (trips w) \<Longrightarrow> \<not> setItem_throws e \<Longrightarrow> \<not> getItem_throws e'
   \<Longrightarrow> trips (loadState e' ((saveState e w)\<lparr>trips := ts\<rparr>)) = trips w"
proof -
  assume trips: "list_all is_trip (trips w)" and ok: "\<not> setItem_throws e" "\<not> getItem_throws e'"
  let ?w = "(saveState e w)\<lparr>trips := ts\<rparr>"
  have "storage ?w = Some (JSON_stringify (JArr (trips w)))"
    using ok by (simp add: saveState_def)
  with ok(2) have "loadState e' ?w = ?w\<lparr>trips := map (reread (Number_read e')) (trips w)\<rparr>"
    by (rule loadState_stored_array)
  moreover have "map (reread (Number_read e')) (trips w) = trips w"
    using plain_trips [OF trips] by (intro map_idI reread_plain) simp
  ultimately show ?thesis by simp
qed

theorem save_then_load_witness:
  "trips (loadState ex_env ((saveState ex_env (ex_world [ex_trip, ex_other]))\<lparr>trips := []\<rparr>))
     = [ex_trip, ex_other]"
  using save_then_load [of "ex_world [ex_trip, ex_other]" ex_env ex_env "[]"]
  by (simp add: ex_world_def ex_env_def ex_trip_def ex_other_def is_trip_def is_timepoint_def
      is_string_def js_def)

lemmas lex_defs =
  lex_number_def lex_sign_def lex_int_def lex_frac_def lex_exp_def lex_digits_def is_digit_def

lemma parse_truncated: "JSON_parse num (js ''[1,'') = None"
  by (simp add: JSON_parse_def skip_ws_def is_json_ws_def js_def lex_defs)

lemma parse_empty_object: "JSON_parse num (js ''{}'') = Some (JObj [])"
  by (simp add: JSON_parse_def skip_ws_def is_json_ws_def js_def)

lemma parse_mixed_array:
  "JSON_parse num (js ''[1.0, {}]'') = Some (JArr [JNum (num (js ''1.0'')), JObj []])"
  by (simp add: JSON_parse_def skip_ws_def is_json_ws_def js_def lex_defs)

lemma parse_foreign_payload:
  "JSON_parse (Number_read ex_env) ex_foreign_payload = Some (JArr [ex_foreign_trip])"
  by (simp add: ex_foreign_payload_def ex_foreign_trip_def ex_env_def JSON_parse_def skip_ws_def
      is_json_ws_def js_def lex_defs hex_val_def unescape_def CreateDataProperty_def
      key_before_def is_index_key_def)

text \<open>
  Claim C6, as amended. \<open>loadState\<close> never throws. It leaves the state as it was (the
  default empty list at boot) when the entry is absent or empty, when the text does not
  parse, and when it parses to something that is not a sequence; of these only the text
  that does not parse (and a read that throws) is logged as a warning, the others pass
  silently. A text that parses to a sequence replaces the list as it is, whatever its
  elements are.
\<close>

theorem loadState_outcomes:
  "(getItem_throws e \<longrightarrow>
      loadState e w = w\<lparr>events := events w @ [Warn ''Failed to load trips from localStorage:'']\<rparr>)
   \<and> (\<not> getItem_throws e \<longrightarrow>
        (storage w = None \<or> storage w = Some [] \<longrightarrow> loadState e w = w)
      \<and> (\<forall>raw. storage w = Some raw \<and> raw \<noteq> [] \<and> JSON_parse (Number_read e) raw = None \<longrightarrow>
            loadState e w
              = w\<lparr>events := events w @ [Warn ''Failed to load trips from localStorage:'']\<rparr>)
      \<and> (\<forall>raw v. storage w = Some raw \<and> JSON_parse (Number_read e) raw = Some v
                  \<and> (\<forall>xs. v \<noteq> JArr xs) \<longrightarrow>
            loadState e w = w)
      \<and> (\<forall>raw xs. storage w = Some raw \<and> JSON_parse (Number_read e) raw = Some (JArr xs) \<longrightarrow>
            loadState e w = w\<lparr>trips := xs\<rparr>))"
proof (intro conjI impI allI)
  fix raw v
  assume "\<not> getItem_throws e"
    and "storage w = Some raw \<and> JSON_parse (Number_read e) raw = Some v \<and> (\<forall>xs. v \<noteq> JArr xs)"
  then show "loadState e w = w"
    by (cases v) (auto simp: loadState_def JSON_parse_Nil)
qed (auto simp: loadState_def JSON_parse_Nil)

theorem loadState_outcomes_witness:
  "loadState ex_env (ex_world []) = ex_world []
   \<and> loadState ex_env (ex_world []\<lparr>storage := Some (js ''[1,'')\<rparr>)
       = ex_world []\<lparr>storage := Some (js ''[1,''),
                      events := [Warn ''Failed to load trips from localStorage:'']\<rparr>
   \<and> loadState ex_env (ex_world []\<lparr>storage := Some (js ''{}'')\<rparr>)
       = ex_world []\<lparr>storage := Some (js ''{}'')\<rparr>
   \<and> loadState ex_env (ex_world []\<lparr>storage := Some (js ''[1.0, {}]'')\<rparr>)
       = ex_world [JNum (Finite False 1 0), JObj []]\<lparr>storage := Some (js ''[1.0, {}]'')\<rparr>
   \<and> loadState ex_env (ex_world []\<lparr>storage := Some ex_foreign_payload\<rparr>)
       = ex_world [ex_foreign_trip]\<lparr>storage := Some ex_foreign_payload\<rparr>
   \<and> loadState (ex_env\<lparr>getItem_throws := True\<rparr>) (ex_world [])
       = ex_world []\<lparr>events := [Warn ''Failed to load trips from localStorage:'']\<rparr>"
  using loadState_outcomes [of ex_env "ex_world []"]
    loadState_outcomes [of ex_env "ex_world []\<lparr>storage := Some (js ''[1,'')\<rparr>"]
    loadState_outcomes [of ex_env "ex_world []\<lparr>storage := Some (js ''{}'')\<rparr>"]
    loadState_outcomes [of ex_env "ex_world []\<lparr>storage := Some (js ''[1.0, {}]'')\<rparr>"]
    loadState_outcomes [of ex_env "ex_world []\<lparr>storage := Some ex_foreign_payload\<rparr>"]
    loadState_outcomes [of "ex_env\<lparr>getItem_throws := True\<rparr>" "ex_world []"]
    parse_foreign_payload
  by (simp add: ex_world_def parse_truncated parse_empty_object parse_mixed_array)
    (simp add: ex_env_def js_def)

text \<open>
  The claim as first stated fails: the stored text \<open>{}\<close> parses to an object, which is
  not a sequence, and \<open>loadState\<close> logs nothing.
\<close>

theorem loadState_silent_counterexample:
  "JSON_parse (Number_read ex_env) (js ''{}'') = Some (JObj [])
   \<and> events (loadState ex_env (ex_world []\<lparr>storage := Some (js ''{}'')\<rparr>)) = []"
  by (simp add: loadState_def parse_empty_object ex_world_def)
    (simp add: ex_env_def js_def)

section \<open>The required fields of the trips in the list\<close>

lemma trim_twice_nonempty: "trim s \<noteq> [] \<Longrightarrow> trim (trim s) \<noteq> []"
proof -
  assume ne: "trim s \<noteq> []"
  let ?d = "dropWhile is_space (rev (dropWhile is_space s))"
  from ne have d: "?d \<noteq> []" by (simp add: trim_def)
  then have "\<not> is_space (hd ?d)" by (rule hd_dropWhile)
  moreover have "hd ?d \<in> set (trim s)" using d by (simp add: trim_def)
  ultimately show ?thesis by (auto simp: trim_Nil_iff)
qed

lemma required_present_collectTrip: "requiredOK f \<Longrightarrow> required_present (collectTrip e f)"
  by (simp add: required_present_def nonblank_field_def get_field_def collectTrip_def
      requiredOK_def Let_def trim_twice_nonempty js_def)

lemma distinct_keys_collectTrip: "distinct_keys (collectTrip e f)"
  by (simp add: distinct_keys_def collectTrip_def Let_def js_def)

subsection \<open>The keys of an object that was read\<close>

lemma keys_insert_key: "map fst (insert_key k v ms) \<in> {xs. set xs = insert k (set (map fst ms))}"
  by (induction ms) auto

lemma distinct_insert_key:
  "k \<notin> fst ` set ms \<Longrightarrow> distinct (map fst ms) \<Longrightarrow> distinct (map fst (insert_key k v ms))"
proof (induction ms)
  case (Cons m ms)
  have "set (map fst (insert_key k v ms)) = insert k (set (map fst ms))"
    using keys_insert_key [of k v ms] by simp
  then show ?case using Cons by auto
qed simp

lemma keys_replace: "fst kv = k \<Longrightarrow> map fst (map (\<lambda>m. if fst m = k then kv else m) ms) = map fst ms"
  by (induction ms) auto

lemma distinct_CreateDataProperty:
  assumes "distinct (map fst ms)"
  shows "distinct (map fst (CreateDataProperty ms kv))"
proof (cases "fst kv \<in> fst ` set ms")
  case True
  have "map fst (map (\<lambda>m. if fst m = fst kv then kv else m) ms) = map fst ms"
    by (rule keys_replace) simp
  then have "map fst (CreateDataProperty ms kv) = map fst ms"
    using True by (simp only: CreateDataProperty_def if_True)
  then show ?thesis using assms by simp
next
  case False
  then show ?thesis using assms by (simp add: CreateDataProperty_def distinct_insert_key)
qed

lemma distinct_foldl_CreateDataProperty:
  "distinct (map fst acc) \<Longrightarrow> distinct (map fst (foldl CreateDataProperty acc ms))"
  by (induction ms arbitrary: acc) (simp_all add: distinct_CreateDataProperty)

lemma map_of_insert_key:
  "k \<notin> fst ` set ms \<Longrightarrow> map_of (insert_key k v ms) = (map_of ms)(k \<mapsto> v)"
proof (induction ms)
  case (Cons m ms)
  obtain k' v' where m: "m = (k', v')" by (cases m)
  have "k' \<noteq> k" using Cons.prems m by auto
  then show ?case using Cons m by (auto simp: fun_upd_twist)
qed simp

lemma map_of_replace:
  "map_of (map (\<lambda>m. if fst m = k then (k, v) else m) ms) k' =
     (if k' = k \<and> k \<in> fst ` set ms then Some v else map_of ms k')"
proof (induction ms)
  case (Cons m ms)
  obtain a b where m: "m = (a, b)" by (cases m)
  show ?case using Cons by (cases "a = k") (auto simp: m split: if_splits)
qed simp

lemma map_of_CreateDataProperty:
  "map_of (CreateDataProperty ms (k, v)) = (map_of ms)(k \<mapsto> v)"
proof (cases "k \<in> fst ` set ms")
  case True
  then show ?thesis by (auto simp: CreateDataProperty_def map_of_replace fun_eq_iff)
next
  case False
  then show ?thesis by (simp add: CreateDataProperty_def map_of_insert_key)
qed

lemma map_of_foldl_CreateDataProperty:
  "distinct (map fst ms) \<Longrightarrow> map_of (foldl CreateDataProperty acc ms) = map_of acc ++ map_of ms"
proof (induction ms arbitrary: acc)
  case Nil
  then show ?case by simp
next
  case (Cons m ms)
  obtain k v where m: "m = (k, v)" by (cases m)
  have k: "k \<notin> dom (map_of ms)" using Cons.prems m by (auto simp: dom_map_of_conv_image_fst)
  have "map_of (foldl CreateDataProperty acc (m # ms))
      = map_of (CreateDataProperty acc (k, v)) ++ map_of ms"
    using Cons.IH [of "CreateDataProperty acc (k, v)"] Cons.prems by (simp add: m)
  also have "\<dots> = (map_of acc)(k \<mapsto> v) ++ map_of ms"
    by (simp only: map_of_CreateDataProperty)
  also have "\<dots> = map_of acc ++ (map_of ms)(k \<mapsto> v)"
    using k by (auto simp: fun_eq_iff map_add_def split: option.splits)
  also have "\<dots> = map_of acc ++ map_of (m # ms)"
    by (simp add: m)
  finally show ?case .
qed

lemma get_field_reread:
  assumes "distinct_keys v"
  shows "get_field k (reread num v) = map_option (reread num) (get_field k v)"
proof (cases v)
  case (JObj ms)
  let ?ms = "map (\<lambda>m. (fst m, reread num (snd m))) ms"
  have keys: "map fst ?ms = map fst ms" by (simp add: comp_def)
  have "distinct (map fst ms)" using assms JObj by (simp add: distinct_keys_def)
  then have "distinct (map fst ?ms)" by (simp only: keys)
  then have "map_of (foldl CreateDataProperty [] ?ms) = map_of ?ms"
    by (simp add: map_of_foldl_CreateDataProperty)
  moreover have "map_of ?ms = map_option (reread num) \<circ> map_of ms"
    by (induction ms) (auto simp: fun_eq_iff)
  ultimately show ?thesis by (simp add: get_field_def JObj)
qed (simp_all add: get_field_def split: jsnum.splits)

lemma required_present_reread:
  assumes "required_present v" and "distinct_keys v"
  shows "required_present (reread num v)"
proof -
  have "nonblank_field k (reread num v)" if "nonblank_field k v" for k
    using that get_field_reread [OF assms(2), of k num]
    by (auto simp: nonblank_field_def split: option.splits json.splits)
  then show ?thesis using assms(1) by (simp add: required_present_def)
qed

lemma parse_value_distinct_keys: "parse_value num n s = Some (v, r) \<Longrightarrow> distinct_keys v"
proof (cases n)
  case (Suc m)
  assume "parse_value num n s = Some (v, r)"
  then show ?thesis
    using distinct_foldl_CreateDataProperty [of "[]"]
    by (auto simp: Suc distinct_keys_def split: list.splits if_splits)
qed simp

lemma parse_elements_distinct_keys:
  "parse_elements num n s = Some (vs, r) \<Longrightarrow> list_all distinct_keys vs"
proof (induction n arbitrary: s vs r)
  case (Suc n)
  from Suc.prems obtain x y where pv: "parse_value num n s = Some (x, y)"
    by (auto split: option.splits)
  from Suc.prems pv obtain c t where sk: "skip_ws y = c # t" by (auto split: list.splits)
  note x = parse_value_distinct_keys [OF pv]
  show ?case
  proof (cases "c = cu CHR '',''")
    case True
    with Suc.prems pv sk obtain zs where "parse_elements num n t = Some (zs, r)" "vs = x # zs"
      by auto
    then show ?thesis using Suc.IH x by simp
  next
    case False
    with Suc.prems pv sk x show ?thesis by (auto split: if_splits)
  qed
qed simp

lemma JSON_parse_distinct_keys:
  assumes "JSON_parse num s = Some (JArr xs)"
  shows "list_all distinct_keys xs"
proof -
  from assms obtain r where "parse_value num (Suc (length s)) s = Some (JArr xs, r)"
    by (auto simp: JSON_parse_def split: option.splits if_splits)
  then show ?thesis
    using parse_elements_distinct_keys [of num "length s"]
    by (auto split: list.splits if_splits)
qed

subsection \<open>The invariant\<close>

text \<open>
  The trips in memory have their required fields, and so has whatever a load could bring:
  each handler keeps that.
\<close>

lemma payload_ok_written:
  assumes "list_all required_present xs" and "list_all distinct_keys xs"
  shows "payload_ok num (Some (JSON_stringify (JArr xs)))"
proof -
  have "list_all required_present (map (reread num) xs)"
    using assms by (auto simp: list_all_iff required_present_reread)
  then show ?thesis by (simp add: payload_ok_def JSON_parse_stringify)
qed

lemma saveState_keeps:
  assumes "list_all required_present (trips w)" and "list_all distinct_keys (trips w)"
    and "payload_ok num (storage w)"
  shows "list_all required_present (trips (saveState e w))
    \<and> list_all distinct_keys (trips (saveState e w))
    \<and> payload_ok num (storage (saveState e w))"
  using assms by (simp add: saveState_def payload_ok_written)

lemma loadState_keeps:
  assumes "list_all required_present (trips w)" and "list_all distinct_keys (trips w)"
    and "payload_ok num (storage w)" and "Number_read e = num"
  shows "list_all required_present (trips (loadState e w))
    \<and> list_all distinct_keys (trips (loadState e w))
    \<and> payload_ok num (storage (loadState e w))"
proof (cases "\<exists>raw xs. \<not> getItem_throws e \<and> storage w = Some raw \<and> raw \<noteq> []
    \<and> JSON_parse num raw = Some (JArr xs)")
  case True
  then obtain raw xs where raw: "\<not> getItem_throws e" "storage w = Some raw" "raw \<noteq> []"
    "JSON_parse num raw = Some (JArr xs)"
    by blast
  have "loadState e w = w\<lparr>trips := xs\<rparr>" using raw assms(4) by (simp add: loadState_def)
  moreover have "list_all required_present xs" using assms(3) raw by (simp add: payload_ok_def)
  moreover have "list_all distinct_keys xs" using raw(4) by (rule JSON_parse_distinct_keys)
  ultimately show ?thesis using assms(3) by simp
next
  case False
  then have "trips (loadState e w) = trips w" and "storage (loadState e w) = storage w"
    using assms(4) by (auto simp: loadState_def split: option.splits json.splits)
  then show ?thesis using assms by simp
qed

lemma onAdd_keeps:
  assumes "list_all required_present (trips w)" and "list_all distinct_keys (trips w)"
    and "payload_ok num (storage w)"
  shows "list_all required_present (trips (onAdd e w))
    \<and> list_all distinct_keys (trips (onAdd e w))
    \<and> payload_ok num (storage (onAdd e w))"
proof (cases "requiredOK (form w)")
  case True
  let ?w = "w\<lparr>trips := trips w @ [collectTrip e (form w)]\<rparr>"
  have "list_all required_present (trips ?w)" and "list_all distinct_keys (trips ?w)"
    and "payload_ok num (storage ?w)"
    using assms True by (simp_all add: required_present_collectTrip distinct_keys_collectTrip)
  then have "list_all required_present (trips (saveState e ?w))
      \<and> list_all distinct_keys (trips (saveState e ?w))
      \<and> payload_ok num (storage (saveState e ?w))"
    by (rule saveState_keeps)
  then show ?thesis using True by (simp add: onAdd_def clearInputs_def)
next
  case False
  then show ?thesis using assms by (simp add: onAdd_def)
qed

lemma splice_js_keeps: "list_all P xs \<Longrightarrow> list_all P (splice_js i k xs)"
  by (auto simp: splice_js_def Let_def list_all_iff dest: in_set_takeD in_set_dropD)

lemma onDelete_keeps:
  assumes "list_all required_present (trips w)" and "list_all distinct_keys (trips w)"
    and "payload_ok num (storage w)"
  shows "list_all required_present (trips (onDelete e tr w))
    \<and> list_all distinct_keys (trips (onDelete e tr w))
    \<and> payload_ok num (storage (onDelete e tr w))"
proof (cases tr)
  case None
  then show ?thesis using assms by (simp add: onDelete_def)
next
  case (Some idx)
  show ?thesis
  proof (cases idx)
    case (Integral i)
    let ?w = "w\<lparr>trips := splice_js i 1 (trips w)\<rparr>"
    have "list_all required_present (trips ?w)" and "list_all distinct_keys (trips ?w)"
      and "payload_ok num (storage ?w)"
      using assms by (simp_all add: splice_js_keeps)
    then have "list_all required_present (trips (saveState e ?w))
        \<and> list_all distinct_keys (trips (saveState e ?w))
        \<and> payload_ok num (storage (saveState e ?w))"
      by (rule saveState_keeps)
    then show ?thesis by (simp add: onDelete_def Some Integral)
  next
    case NonIntegral
    then show ?thesis using assms by (simp add: onDelete_def Some)
  qed
qed

lemma reachable_keeps:
  assumes "payload_ok num st" and "reachable num st w"
  shows "list_all required_present (trips w) \<and> list_all distinct_keys (trips w)
    \<and> payload_ok num (storage w)"
  using assms(2)
proof (induction rule: reachable.induct)
  case (boot f)
  then show ?case using assms(1) by simp
next
  case (typing w f)
  then show ?case by simp
next
  case (load w e)
  then show ?case using loadState_keeps by blast
next
  case (add w e)
  then show ?case using onAdd_keeps by blast
next
  case (delete w e tr)
  then show ?case using onDelete_keeps by blast
qed

lemma parse_bad_payload:
  "JSON_parse num ex_bad_payload = Some (JArr [ex_bad_trip])"
  by (simp add: ex_bad_payload_def ex_bad_trip_def JSON_parse_def skip_ws_def is_json_ws_def
      js_def CreateDataProperty_def key_before_def is_index_key_def is_digit_def)

text \<open>
  Claim C2, as amended. Start from the empty list over a stored payload that is absent,
  or does not parse to a sequence, or parses to a sequence whose elements all have a train,
  an origin and a destination that are texts neither empty nor only white space; the
  elements may have any other shape. Then in every state reached by typing into the form,
  loading, adding and deleting, each trip in the list has such a train, origin and
  destination.
\<close>

theorem required_fields_kept:
  "payload_ok num st \<Longrightarrow> reachable num st w \<Longrightarrow> list_all required_present (trips w)"
  using reachable_keeps by blast

theorem required_fields_kept_witness:
  "payload_ok (Number_read ex_env) (Some ex_foreign_payload)
   \<and> reachable (Number_read ex_env) (Some ex_foreign_payload)
       (onAdd ex_env (loadState ex_env
          \<lparr>trips = [], storage = Some ex_foreign_payload, form = ex_form, events = []\<rparr>))
   \<and> trips (onAdd ex_env (loadState ex_env
          \<lparr>trips = [], storage = Some ex_foreign_payload, form = ex_form, events = []\<rparr>))
       = [ex_foreign_trip, ex_trip]
   \<and> list_all required_present [ex_foreign_trip, ex_trip]"
proof -
  let ?w = "\<lparr>trips = [], storage = Some ex_foreign_payload, form = ex_form, events = []\<rparr>"
  have "required_present ex_foreign_trip"
    by (simp add: required_present_def nonblank_field_def get_field_def ex_foreign_trip_def
        trim_def is_space_def js_def)
  then have p: "payload_ok (Number_read ex_env) (Some ex_foreign_payload)"
    by (simp add: payload_ok_def parse_foreign_payload)
  have r: "reachable (Number_read ex_env) (Some ex_foreign_payload)
      (onAdd ex_env (loadState ex_env ?w))"
    by (intro reachable.add reachable.load reachable.boot) simp_all
  have "ex_foreign_payload \<noteq> []" by (simp add: ex_foreign_payload_def js_def)
  then have l: "loadState ex_env ?w = ?w\<lparr>trips := [ex_foreign_trip]\<rparr>"
    using parse_foreign_payload by (simp add: loadState_def) (simp add: ex_env_def)
  have t: "trips (onAdd ex_env (loadState ex_env ?w)) = [ex_foreign_trip, ex_trip]"
    unfolding l
    by (simp add: trips_onAdd requiredOK_def ex_form_def ex_trip_def ex_env_def collectTrip_def
        buildLocalDate_def instant_def trim_def is_space_def js_def)
  show ?thesis using required_fields_kept [OF p r] p r t by simp
qed

text \<open>
  The claim as first stated fails: the page boots over a stored payload whose trip has an
  empty train, and \<open>loadState\<close> puts that trip in the list without looking at it.
\<close>

theorem required_fields_counterexample:
  "reachable (Number_read ex_env) (Some ex_bad_payload)
     (loadState ex_env \<lparr>trips = [], storage = Some ex_bad_payload, form = ex_blank, events = []\<rparr>)
   \<and> trips (loadState ex_env
        \<lparr>trips = [], storage = Some ex_bad_payload, form = ex_blank, events = []\<rparr>) = [ex_bad_trip]
   \<and> get_field ''train'' ex_bad_trip = Some (JStr [])
   \<and> \<not> list_all required_present [ex_bad_trip]"
proof -
  let ?w = "\<lparr>trips = [], storage = Some ex_bad_payload, form = ex_blank, events = []\<rparr>"
  have "ex_bad_payload \<noteq> []" by (simp add: ex_bad_payload_def js_def)
  then have "loadState ex_env ?w = ?w\<lparr>trips := [ex_bad_trip]\<rparr>"
    by (simp add: loadState_def parse_bad_payload) (simp add: ex_env_def)
  then have "trips (loadState ex_env ?w) = [ex_bad_trip]" by simp
  moreover have "reachable (Number_read ex_env) (Some ex_bad_payload) (loadState ex_env ?w)"
    by (intro reachable.load reachable.boot) simp
  moreover have "get_field ''train'' ex_bad_trip = Some (JStr [])"
    by (simp add: get_field_def ex_bad_trip_def js_def)
  moreover have "\<not> list_all required_present [ex_bad_trip]"
    by (simp add: required_present_def nonblank_field_def get_field_def ex_bad_trip_def trim_def
        js_def)
  ultimately show ?thesis by simp
qed

section \<open>The exported document\<close>



lemma document_parses:
  "JSON_parse num (JSON_stringify_2 (JObj [(js ''trips'', JArr xs)]))
     = Some (JObj [(js ''trips'', JArr (map (reread num) xs))])"
  by (simp add: JSON_parse_stringify_2 CreateDataProperty_def)

lemma reread_trips: "list_all is_trip xs \<Longrightarrow> map (reread num) xs = xs"
  using plain_trips [of xs] by (intro map_idI reread_plain) simp




text \<open>A list of Trips is exported as a document that reads back as the list.\<close>

lemma exported_document_parses:
  assumes "list_all is_trip (trips w)"
  shows "JSON_parse num (JSON_stringify_2 (JObj [(js ''trips'', JArr (trips w))]))
         = Some (JObj [(js ''trips'', JArr (trips w))])"
  using assms by (simp add: document_parses reread_trips)

end
